theory Spec2Isabelle
  imports Main "HOL-Library.AList" "HOL-Library.Sublist"
begin

section \<open>Shared Python vocabulary\<close>

text \<open>
  Both scripts are sequences of blocking calls against a remote service. The
  embedding makes every effect explicit: each function takes the history of
  events performed so far and returns the extended history. An exception is a
  value; a \<^verbatim>\<open>try/except\<close> is a case distinction on it.
\<close>

datatype exn = Exn string

fun str_exn :: "exn \<Rightarrow> string" where
  "str_exn (Exn msg) = msg"

text \<open>Python's \<^verbatim>\<open>sub in s\<close> on strings.\<close>

fun contains :: "string \<Rightarrow> string \<Rightarrow> bool" where
  "contains sub [] = (sub = [])"
| "contains sub (c # cs) = (prefix sub (c # cs) \<or> contains sub cs)"

text \<open>Python's \<^verbatim>\<open>str(n)\<close> for an integer.\<close>

fun str_nat :: "nat \<Rightarrow> string" where
  "str_nat n = (if n < 10 then [''0123456789'' ! n]
                else str_nat (n div 10) @ [''0123456789'' ! (n mod 10)])"

definition str_int :: "int \<Rightarrow> string" where
  "str_int i = (if i < 0 then CHR ''-'' # str_nat (nat (- i)) else str_nat (nat i))"

subsection \<open>Floats: \<^verbatim>\<open>a / b\<close> on integers and \<^verbatim>\<open>math.ceil\<close>\<close>

text \<open>
  Python's true division of two integers returns the double nearest to the
  exact quotient (ties to even), and raises when the quotient is too large for
  a double or the divisor is zero. \<open>Float m e\<close> is the double of value
  \<open>m * 2 ^ e\<close>.
\<close>

datatype float = Float int int

text \<open>Python's \<^verbatim>\<open>int.bit_length()\<close>.\<close>

fun bit_length :: "nat \<Rightarrow> nat" where
  "bit_length n = (if n = 0 then 0 else Suc (bit_length (n div 2)))"

text \<open>The integer nearest to \<open>x / y\<close>, ties to even, for \<open>0 \<le> x\<close> and \<open>0 < y\<close>.\<close>

definition round_div :: "int \<Rightarrow> int \<Rightarrow> int" where
  "round_div x y =
     (let q = x div y; r = x mod y in
      if 2 * r < y then q
      else if y < 2 * r then q + 1
      else if even q then q else q + 1)"

text \<open>
  The quotient of two positive integers: \<open>e\<close> is the binary exponent of the
  exact quotient (\<open>2 ^ e \<le> a / b < 2 ^ (e + 1)\<close>), the result keeps 53
  significant bits, fewer below the smallest normal double.
\<close>

definition truediv_pos :: "nat \<Rightarrow> nat \<Rightarrow> exn + float" where
  "truediv_pos a b =
     (let d = int (bit_length a) - int (bit_length b);
          e = (if int b * 2 ^ nat d \<le> int a * 2 ^ nat (- d) then d else d - 1);
          s = max (e - 52) (- 1074);
          m = round_div (int a * 2 ^ nat (- s)) (int b * 2 ^ nat s)
      in if 1023 < e \<or> (e = 1023 \<and> m = 2 ^ 53)
         then Inl (Exn ''integer division result too large for a float'')
         else Inr (Float m s))"

definition py_truediv :: "int \<Rightarrow> int \<Rightarrow> exn + float" where
  "py_truediv a b =
     (if b = 0 then Inl (Exn ''division by zero'')
      else if a = 0 then Inr (Float 0 0)
      else case truediv_pos (nat \<bar>a\<bar>) (nat \<bar>b\<bar>) of
             Inl e \<Rightarrow> Inl e
           | Inr (Float m s) \<Rightarrow> if (a < 0) = (b < 0) then Inr (Float m s) else Inr (Float (- m) s))"

fun math_ceil :: "float \<Rightarrow> int" where
  "math_ceil (Float m e) = (if 0 \<le> e then m * 2 ^ nat e else - ((- m) div 2 ^ nat (- e)))"

section \<open>Cold-Tier Migrator (glacier\_to\_standard.py)\<close>

subsection \<open>Configuration\<close>


definition PART_SIZE :: int where
  "PART_SIZE = 500 * 1024 * 1024"

subsection \<open>The storage service as seen by the script\<close>

type_synonym key = string

datatype level = INFO | WARNING | ERROR

text \<open>
  One event per remote call, log line and sleep, in program order. Every call
  is made against \<^verbatim>\<open>BUCKET_NAME\<close>, which is therefore not repeated in the
  events. \<open>CopyObject key src cls directive\<close> carries the copy source key;
  \<open>UploadPartCopy key part_number upload_id src start end\<close> carries the two
  bounds of the \<^verbatim>\<open>bytes=start-end\<close> range.
\<close>

datatype event =
    Log level string
  | Sleep nat
  | ListObjectsV2
  | HeadObject key
  | RestoreObject key nat string
  | CopyObject key key string string
  | CreateMultipartUpload key string string
  | UploadPartCopy key nat string key int int
  | CompleteMultipartUpload key string "(string \<times> nat) list"
  | AbortMultipartUpload key string
  | ListObjectVersions key
  | DeleteObject key string

record s3_object =
  Key :: key
  StorageClass :: "string option"

text \<open>A listing page; \<open>Contents\<close> is absent on an empty page.\<close>

record page =
  Contents :: "s3_object list option"

record head_response =
  Restore :: "string option"
  ContentLength :: int

record object_version =
  vKey :: key
  VersionId :: string
  IsLatest :: bool
  vStorageClass :: "string option"

text \<open>
  The service is deterministic in the history of the run: each operation maps
  the events so far (which include the sleeps, hence the elapsed time) and its
  arguments to an exception or a result.
\<close>

record s3_env =
  list_objects_v2 :: "event list \<Rightarrow> exn + page list"
  head_object :: "event list \<Rightarrow> key \<Rightarrow> exn + head_response"
  restore_object :: "event list \<Rightarrow> key \<Rightarrow> nat \<Rightarrow> string \<Rightarrow> exn + unit"
  copy_object :: "event list \<Rightarrow> key \<Rightarrow> exn + unit"
  create_multipart_upload :: "event list \<Rightarrow> key \<Rightarrow> exn + string"
  upload_part_copy :: "event list \<Rightarrow> key \<Rightarrow> nat \<Rightarrow> string \<Rightarrow> int \<Rightarrow> int \<Rightarrow> exn + string"
  complete_multipart_upload ::
    "event list \<Rightarrow> key \<Rightarrow> string \<Rightarrow> (string \<times> nat) list \<Rightarrow> exn + unit"
  abort_multipart_upload :: "event list \<Rightarrow> key \<Rightarrow> string \<Rightarrow> exn + unit"
  list_object_versions :: "event list \<Rightarrow> key \<Rightarrow> exn + object_version list"
  delete_object :: "event list \<Rightarrow> key \<Rightarrow> string \<Rightarrow> exn + unit"

subsection \<open>Discovery\<close>

text \<open>\<^verbatim>\<open>for obj in page.get("Contents", [])\<close>\<close>

fun scan_contents :: "s3_object list \<Rightarrow> key list \<Rightarrow> key list" where
  "scan_contents [] glacier_objects = glacier_objects"
| "scan_contents (obj # objs) glacier_objects =
     (if StorageClass obj = Some ''GLACIER''
      then scan_contents objs (glacier_objects @ [Key obj])
      else scan_contents objs glacier_objects)"

text \<open>\<^verbatim>\<open>for page in paginator.paginate(Bucket=BUCKET_NAME)\<close>\<close>

fun scan_pages :: "page list \<Rightarrow> key list \<Rightarrow> key list" where
  "scan_pages [] glacier_objects = glacier_objects"
| "scan_pages (pg # pgs) glacier_objects =
     scan_pages pgs
       (scan_contents (case Contents pg of None \<Rightarrow> [] | Some objs \<Rightarrow> objs) glacier_objects)"

text \<open>
  The paginator is one \<open>ListObjectsV2\<close> event. An exception while paging
  leaves the function, and the keys collected so far are lost with it.
\<close>

definition get_glacier_objects :: "s3_env \<Rightarrow> event list \<Rightarrow> event list \<times> (exn + key list)" where
  "get_glacier_objects env h =
     (let h1 = h @ [Log INFO ''Scanning for GLACIER objects...''] in
      case list_objects_v2 env h1 of
        Inl e \<Rightarrow> (h1 @ [ListObjectsV2], Inl e)
      | Inr pages \<Rightarrow>
          (let glacier_objects = scan_pages pages [] in
           (h1 @ [ListObjectsV2,
                  Log INFO (''Found '' @ str_int (int (length glacier_objects))
                            @ '' GLACIER objects.'')],
            Inr glacier_objects)))"

subsection \<open>Restore initiation\<close>

definition ongoing_true :: string where
  \<open>ongoing_true = ''ongoing-request="true"''\<close>

definition ongoing_false :: string where
  \<open>ongoing_false = ''ongoing-request="false"''\<close>

text \<open>\<^verbatim>\<open>"Restore" in head and marker in head["Restore"]\<close>\<close>

definition restore_has :: "string \<Rightarrow> head_response \<Rightarrow> bool" where
  "restore_has marker head =
     (case Restore head of None \<Rightarrow> False | Some r \<Rightarrow> contains marker r)"

text \<open>The body of the loop of \<^verbatim>\<open>initiate_restore\<close>, with its \<^verbatim>\<open>try/except\<close>.\<close>

definition initiate_restore_key :: "s3_env \<Rightarrow> key \<Rightarrow> event list \<Rightarrow> event list" where
  "initiate_restore_key env key h =
     (case head_object env h key of
        Inl e \<Rightarrow> h @ [HeadObject key, Log ERROR (''Error restoring '' @ key @ '': '' @ str_exn e)]
      | Inr head \<Rightarrow>
          if restore_has ongoing_true head
          then h @ [HeadObject key, Log INFO (''Restore already in progress: '' @ key)]
          else if restore_has ongoing_false head
          then h @ [HeadObject key, Log INFO (''Already restored: '' @ key)]
          else (case restore_object env (h @ [HeadObject key]) key 1 ''Standard'' of
                  Inl e \<Rightarrow> h @ [HeadObject key, RestoreObject key 1 ''Standard'',
                                Log ERROR (''Error restoring '' @ key @ '': '' @ str_exn e)]
                | Inr _ \<Rightarrow> h @ [HeadObject key, RestoreObject key 1 ''Standard'',
                                Log INFO (''Restore initiated: '' @ key)]))"

fun initiate_restore :: "s3_env \<Rightarrow> key list \<Rightarrow> event list \<Rightarrow> event list" where
  "initiate_restore env [] h = h"
| "initiate_restore env (key # keys) h =
     initiate_restore env keys (initiate_restore_key env key h)"

subsection \<open>Restore polling\<close>

text \<open>
  \<open>restored\<close> is a Python dict: an association list in insertion order,
  assigned with \<open>AList.update\<close>, its length the number of its keys.
\<close>

type_synonym restored_dict = "(key \<times> int) list"

text \<open>One sweep, \<^verbatim>\<open>for key in keys\<close>, of the polling loop.\<close>

fun poll_keys :: "s3_env \<Rightarrow> key list \<Rightarrow> event list \<times> restored_dict \<Rightarrow> event list \<times> restored_dict" where
  "poll_keys env [] (h, restored) = (h, restored)"
| "poll_keys env (key # keys) (h, restored) =
     (if key \<in> fst ` set restored then poll_keys env keys (h, restored)
      else case head_object env h key of
             Inl e \<Rightarrow>
               poll_keys env keys
                 (h @ [HeadObject key,
                       Log ERROR (''Error checking '' @ key @ '': '' @ str_exn e)], restored)
           | Inr head \<Rightarrow>
               if restore_has ongoing_false head
               then poll_keys env keys
                      (h @ [HeadObject key,
                            Log INFO (''Restored: '' @ key @ '' ('' @ str_int (ContentLength head)
                                      @ '' bytes)'')],
                       AList.update key (ContentLength head) restored)
               else poll_keys env keys (h @ [HeadObject key], restored))"

definition progress_line :: "restored_dict \<Rightarrow> key list \<Rightarrow> event" where
  "progress_line restored keys =
     Log INFO (str_int (int (length restored)) @ '' of '' @ str_int (int (length keys))
               @ '' objects restored.'')"

text \<open>
  \<^verbatim>\<open>while len(restored) < len(keys)\<close>: the loop has no bound, so it is a
  partial function and a run that never leaves it has the value \<open>None\<close>.
\<close>

partial_function (option) wait_loop ::
  "s3_env \<Rightarrow> key list \<Rightarrow> event list \<times> restored_dict \<Rightarrow> (event list \<times> restored_dict) option" where
  "wait_loop env keys st =
     (if length (snd st) < length keys
      then (if length (snd (poll_keys env keys st)) < length keys
            then wait_loop env keys
                   (fst (poll_keys env keys st)
                      @ [progress_line (snd (poll_keys env keys st)) keys, Sleep 60],
                    snd (poll_keys env keys st))
            else wait_loop env keys
                   (fst (poll_keys env keys st)
                      @ [progress_line (snd (poll_keys env keys st)) keys],
                    snd (poll_keys env keys st)))
      else Some st)"


subsection \<open>Multipart copy\<close>

text \<open>
  \<^verbatim>\<open>for i in range(part_count)\<close>: the result is the history and either the
  exception that left the loop or the collected \<open>(ETag, PartNumber)\<close> list.
\<close>

fun upload_parts ::
  "s3_env \<Rightarrow> key \<Rightarrow> int \<Rightarrow> string \<Rightarrow> nat \<Rightarrow> nat list \<Rightarrow> event list \<Rightarrow> (string \<times> nat) list
     \<Rightarrow> event list \<times> (exn + (string \<times> nat) list)" where
  "upload_parts env key sz uid part_count [] h parts = (h, Inr parts)"
| "upload_parts env key sz uid part_count (i # is) h parts =
     (let start = int i * PART_SIZE;
          end = min (start + PART_SIZE - 1) (sz - 1)
      in case upload_part_copy env h key (i + 1) uid start end of
           Inl e \<Rightarrow> (h @ [UploadPartCopy key (i + 1) uid key start end], Inl e)
         | Inr etag \<Rightarrow>
             upload_parts env key sz uid part_count is
               (h @ [UploadPartCopy key (i + 1) uid key start end,
                     Log INFO (''Copied part '' @ str_int (int i + 1) @ ''/''
                               @ str_int (int part_count) @ '' for '' @ key)])
               (parts @ [(etag, i + 1)]))"

text \<open>
  The handler of \<^verbatim>\<open>multipart_copy\<close> once \<open>upload\<close> is bound: log, try
  to abort, and swallow a failure of the abort with a warning.
\<close>

definition abort_upload :: "s3_env \<Rightarrow> key \<Rightarrow> string \<Rightarrow> exn \<Rightarrow> event list \<Rightarrow> event list" where
  "abort_upload env key uid e h =
     (let h1 = h @ [Log ERROR (''Multipart copy failed for '' @ key @ '': '' @ str_exn e)] in
      case abort_multipart_upload env h1 key uid of
        Inl _ \<Rightarrow> h1 @ [AbortMultipartUpload key uid,
                       Log WARNING (''Could not abort upload for '' @ key)]
      | Inr _ \<Rightarrow> h1 @ [AbortMultipartUpload key uid])"

text \<open>
  When \<^verbatim>\<open>create_multipart_upload\<close> itself raises, \<open>upload\<close> is unbound:
  evaluating \<^verbatim>\<open>upload["UploadId"]\<close> in the handler raises inside the inner
  \<^verbatim>\<open>try\<close>, no abort call is made and the warning is logged. The function
  catches every exception and returns normally.
\<close>

definition multipart_copy :: "s3_env \<Rightarrow> key \<Rightarrow> int \<Rightarrow> event list \<Rightarrow> event list" where
  "multipart_copy env key sz h =
     (let h0 = h @ [Log INFO (''Multipart copying '' @ key @ '' ('' @ str_int sz @ '' bytes)...'')];
          h1 = h0 @ [CreateMultipartUpload key ''STANDARD'' ''COPY'']
      in case create_multipart_upload env h0 key of
           Inl e \<Rightarrow>
             h1 @ [Log ERROR (''Multipart copy failed for '' @ key @ '': '' @ str_exn e),
                   Log WARNING (''Could not abort upload for '' @ key)]
         | Inr uid \<Rightarrow>
             (case py_truediv sz PART_SIZE of
                Inl e \<Rightarrow> abort_upload env key uid e h1
              | Inr ratio \<Rightarrow>
                  (let part_count = nat (math_ceil ratio) in
                   case upload_parts env key sz uid part_count [0..<part_count] h1 [] of
                     (h2, Inl e) \<Rightarrow> abort_upload env key uid e h2
                   | (h2, Inr parts) \<Rightarrow>
                       (case complete_multipart_upload env h2 key uid parts of
                          Inl e \<Rightarrow>
                            abort_upload env key uid e (h2 @ [CompleteMultipartUpload key uid parts])
                        | Inr _ \<Rightarrow>
                            h2 @ [CompleteMultipartUpload key uid parts,
                                  Log INFO (''Completed multipart copy for '' @ key)]))))"

subsection \<open>Version cleanup\<close>

text \<open>\<^verbatim>\<open>for v in versions.get("Versions", [])\<close>, left by the first exception.\<close>

fun delete_versions ::
  "s3_env \<Rightarrow> key \<Rightarrow> object_version list \<Rightarrow> event list \<Rightarrow> event list \<times> exn option" where
  "delete_versions env key [] h = (h, None)"
| "delete_versions env key (v # vs) h =
     (if IsLatest v then delete_versions env key vs h
      else if vStorageClass v \<in> {Some ''GLACIER'', Some ''DEEP_ARCHIVE''}
      then (case delete_object env h key (VersionId v) of
              Inl e \<Rightarrow> (h @ [DeleteObject key (VersionId v)], Some e)
            | Inr _ \<Rightarrow>
                delete_versions env key vs
                  (h @ [DeleteObject key (VersionId v),
                        Log INFO (''Deleted Glacier version: '' @ key @ '' (version ''
                                  @ VersionId v @ '')'')]))
      else delete_versions env key vs h)"

text \<open>The listing is requested with \<^verbatim>\<open>Prefix=key\<close>.\<close>

definition cleanup_glacier_versions :: "s3_env \<Rightarrow> key \<Rightarrow> event list \<Rightarrow> event list" where
  "cleanup_glacier_versions env key h =
     (case list_object_versions env h key of
        Inl e \<Rightarrow>
          h @ [ListObjectVersions key,
               Log ERROR (''Error cleaning up versions for '' @ key @ '': '' @ str_exn e)]
      | Inr versions \<Rightarrow>
          (case delete_versions env key versions (h @ [ListObjectVersions key]) of
             (h1, None) \<Rightarrow> h1
           | (h1, Some e) \<Rightarrow>
               h1 @ [Log ERROR (''Error cleaning up versions for '' @ key @ '': '' @ str_exn e)]))"

subsection \<open>Transition to standard\<close>

text \<open>The body of the loop of \<^verbatim>\<open>transition_to_standard\<close>.\<close>

definition transition_key :: "s3_env \<Rightarrow> key \<Rightarrow> int \<Rightarrow> event list \<Rightarrow> event list" where
  "transition_key env key sz h =
     (if sz > 5 * 1024 * 1024 * 1024
      then cleanup_glacier_versions env key (multipart_copy env key sz h)
      else case copy_object env h key of
             Inl e \<Rightarrow>
               h @ [CopyObject key key ''STANDARD'' ''COPY'',
                    Log ERROR (''Failed to transition '' @ key @ '' to STANDARD: '' @ str_exn e)]
           | Inr _ \<Rightarrow>
               cleanup_glacier_versions env key
                 (h @ [CopyObject key key ''STANDARD'' ''COPY'',
                       Log INFO (''Standard copy complete for: '' @ key)]))"

text \<open>\<^verbatim>\<open>for key, size in restored_objects.items()\<close>\<close>

fun transition_items :: "s3_env \<Rightarrow> restored_dict \<Rightarrow> event list \<Rightarrow> event list" where
  "transition_items env [] h = h"
| "transition_items env ((key, sz) # items) h =
     transition_items env items (transition_key env key sz h)"

definition transition_to_standard :: "s3_env \<Rightarrow> restored_dict \<Rightarrow> event list \<Rightarrow> event list" where
  "transition_to_standard env restored_objects h =
     transition_items env restored_objects
       (h @ [Log INFO ''Transitioning restored objects to STANDARD storage...''])"

subsection \<open>The run\<close>


subsection \<open>Reading a history\<close>

text \<open>The key a remote call is made on.\<close>

fun event_key :: "event \<Rightarrow> key option" where
  "event_key (HeadObject k) = Some k"
| "event_key (RestoreObject k _ _) = Some k"
| "event_key (CopyObject k _ _ _) = Some k"
| "event_key (CreateMultipartUpload k _ _) = Some k"
| "event_key (UploadPartCopy k _ _ _ _ _) = Some k"
| "event_key (CompleteMultipartUpload k _ _) = Some k"
| "event_key (AbortMultipartUpload k _) = Some k"
| "event_key (ListObjectVersions k) = Some k"
| "event_key (DeleteObject k _) = Some k"
| "event_key _ = None"

fun is_head_call :: "event \<Rightarrow> bool" where
  "is_head_call (HeadObject _) = True"
| "is_head_call _ = False"

fun is_restore_call :: "event \<Rightarrow> bool" where
  "is_restore_call (RestoreObject _ _ _) = True"
| "is_restore_call _ = False"

fun is_copy_call :: "event \<Rightarrow> bool" where
  "is_copy_call (CopyObject _ _ _ _) = True"
| "is_copy_call _ = False"

fun is_multipart_call :: "event \<Rightarrow> bool" where
  "is_multipart_call (CreateMultipartUpload _ _ _) = True"
| "is_multipart_call (UploadPartCopy _ _ _ _ _ _) = True"
| "is_multipart_call (CompleteMultipartUpload _ _ _) = True"
| "is_multipart_call (AbortMultipartUpload _ _) = True"
| "is_multipart_call _ = False"

fun is_cleanup_call :: "event \<Rightarrow> bool" where
  "is_cleanup_call (ListObjectVersions _) = True"
| "is_cleanup_call (DeleteObject _ _) = True"
| "is_cleanup_call _ = False"


section \<open>Profile Provisioner (generate\_aws\_profiles\_sso\_vpc.py)\<close>

subsection \<open>Static settings\<close>

record sso_profile =
  sso_start_url :: string
  sso_region :: string
  sso_account_id :: string
  sso_role_name :: string
  region :: string

definition profile_names :: "string list" where
  "profile_names = [''prod'', ''dev'']"

definition sso_info :: "string \<rightharpoonup> sso_profile" where
  "sso_info = map_of
     [(''prod'', \<lparr>sso_start_url = ''https://your-sso-portal.awsapps.com/start'',
                  sso_region = ''us-east-1'',
                  sso_account_id = ''123456789012'',
                  sso_role_name = ''ProdAdmin'',
                  region = ''us-east-1''\<rparr>),
      (''dev'', \<lparr>sso_start_url = ''https://your-sso-portal.awsapps.com/start'',
                 sso_region = ''us-west-2'',
                 sso_account_id = ''210987654321'',
                 sso_role_name = ''DevPowerUser'',
                 region = ''us-west-2''\<rparr>)]"

definition services :: "string list" where
  "services = [''s3'', ''ec2'', ''sts'']"

subsection \<open>Endpoint discovery\<close>

text \<open>An endpoint record; \<open>DnsEntries\<close> holds the \<open>DnsName\<close> of each entry.\<close>

record vpc_endpoint =
  VpcEndpointType :: string
  ServiceName :: string
  DnsEntries :: "string list"

text \<open>
  \<open>session\<close> is \<^verbatim>\<open>boto3.Session(profile_name=profile)\<close>;
  \<open>describe_vpc_endpoints profile region\<close> is the client of that session for
  the region and its call.
\<close>

record ec2_env =
  session :: "string \<Rightarrow> exn + unit"
  describe_vpc_endpoints :: "string \<Rightarrow> string \<Rightarrow> exn + vpc_endpoint list"

type_synonym endpoint_dict = "(string \<times> string) list"

text \<open>\<^verbatim>\<open>for svc in services\<close>; \<^verbatim>\<open>ep["DnsEntries"][0]\<close> raises on an empty list.\<close>

fun match_services :: "vpc_endpoint \<Rightarrow> string list \<Rightarrow> endpoint_dict \<Rightarrow> exn + endpoint_dict" where
  "match_services ep [] service_endpoints = Inr service_endpoints"
| "match_services ep (svc # svcs) service_endpoints =
     (if contains (''.'' @ svc @ ''.'') (ServiceName ep)
      then (case DnsEntries ep of
              [] \<Rightarrow> Inl (Exn ''list index out of range'')
            | dns # _ \<Rightarrow> match_services ep svcs (AList.update svc dns service_endpoints))
      else match_services ep svcs service_endpoints)"

text \<open>\<^verbatim>\<open>for ep in response["VpcEndpoints"]\<close>\<close>

fun scan_endpoints :: "vpc_endpoint list \<Rightarrow> endpoint_dict \<Rightarrow> exn + endpoint_dict" where
  "scan_endpoints [] service_endpoints = Inr service_endpoints"
| "scan_endpoints (ep # eps) service_endpoints =
     (if VpcEndpointType ep = ''Interface''
      then (case match_services ep services service_endpoints of
              Inl e \<Rightarrow> Inl e
            | Inr service_endpoints' \<Rightarrow> scan_endpoints eps service_endpoints')
      else scan_endpoints eps service_endpoints)"

definition service_endpoints :: "vpc_endpoint list \<Rightarrow> exn + endpoint_dict" where
  "service_endpoints eps = scan_endpoints eps []"

subsection \<open>The configuration\<close>

text \<open>
  The parsed configuration: sections in file order, each with its options in
  order. Option names are kept as given; the parser lower-cases them, and
  every name the script sets is lower-case already.
\<close>

type_synonym config = "(string \<times> (string \<times> string) list) list"

definition has_section :: "config \<Rightarrow> string \<Rightarrow> bool" where
  "has_section config section \<longleftrightarrow> section \<in> fst ` set config"

definition add_section :: "config \<Rightarrow> string \<Rightarrow> exn + config" where
  "add_section config section =
     (if section = ''DEFAULT'' then Inl (Exn ''Invalid section name'')
      else if has_section config section then Inl (Exn ''Section already exists'')
      else Inr (config @ [(section, [])]))"

definition config_set :: "config \<Rightarrow> string \<Rightarrow> string \<Rightarrow> string \<Rightarrow> exn + config" where
  "config_set config section option val =
     (case map_of config section of
        None \<Rightarrow> Inl (Exn ''No section'')
      | Some options \<Rightarrow> Inr (AList.update section (AList.update option val options) config))"

text \<open>A run of \<^verbatim>\<open>config.set(section, ...)\<close> statements, in order.\<close>

fun set_options :: "string \<Rightarrow> (string \<times> string) list \<Rightarrow> config \<Rightarrow> exn + config" where
  "set_options section [] config = Inr config"
| "set_options section ((option, val) # rest) config =
     (case config_set config section option val of
        Inl e \<Rightarrow> Inl e
      | Inr config' \<Rightarrow> set_options section rest config')"

definition endpoint_value :: "string \<Rightarrow> string" where
  "endpoint_value host = [CHR 0x0A] @ ''    endpoint_url = https://'' @ host"

text \<open>The body of \<^verbatim>\<open>for profile in profile_names\<close>.\<close>

definition provision_profile :: "ec2_env \<Rightarrow> string \<Rightarrow> config \<Rightarrow> exn + config" where
  "provision_profile env profile config =
     (case session env profile of
        Inl e \<Rightarrow> Inl e
      | Inr _ \<Rightarrow>
     (case sso_info profile of
        None \<Rightarrow> Inl (Exn ''KeyError'')
      | Some info \<Rightarrow>
     (case describe_vpc_endpoints env profile (region info) of
        Inl e \<Rightarrow> Inl e
      | Inr eps \<Rightarrow>
     (case service_endpoints eps of
        Inl e \<Rightarrow> Inl e
      | Inr svc_endpoints \<Rightarrow>
     (let section = ''profile '' @ profile in
      case (if has_section config section then Inr config else add_section config section) of
        Inl e \<Rightarrow> Inl e
      | Inr config1 \<Rightarrow>
          set_options section
            ([(''sso_start_url'', sso_start_url info),
              (''sso_region'', sso_region info),
              (''sso_account_id'', sso_account_id info),
              (''sso_role_name'', sso_role_name info),
              (''region'', region info),
              (''output'', ''json'')]
             @ map (\<lambda>(svc, host). (svc, endpoint_value host)) svc_endpoints)
            config1)))))"

fun provision :: "ec2_env \<Rightarrow> string list \<Rightarrow> config \<Rightarrow> exn + config" where
  "provision env [] config = Inr config"
| "provision env (profile # profiles) config =
     (case provision_profile env profile config of
        Inl e \<Rightarrow> Inl e
      | Inr config' \<Rightarrow> provision env profiles config')"

text \<open>
  The script: the configuration it writes back, or the exception that ends it
  before anything is written.
\<close>

definition generate_aws_profiles :: "ec2_env \<Rightarrow> config \<Rightarrow> exn + config" where
  "generate_aws_profiles env config = provision env profile_names config"

subsection \<open>Sample services\<close>

text \<open>
  A service on which every call succeeds: objects report a completed restore
  of ten bytes, uploads get the id \<open>upload-1\<close>, part \<open>n\<close> gets the tag
  \<open>etag-n\<close>, and no object has versions.
\<close>

definition ok_env :: s3_env where
  "ok_env =
     \<lparr>list_objects_v2 = (\<lambda>h. Inr []),
      head_object = (\<lambda>h k. Inr \<lparr>Restore = Some ongoing_false, ContentLength = 10\<rparr>),
      restore_object = (\<lambda>h k d t. Inr ()),
      copy_object = (\<lambda>h k. Inr ()),
      create_multipart_upload = (\<lambda>h k. Inr ''upload-1''),
      upload_part_copy = (\<lambda>h k n u s e. Inr (''etag-'' @ str_nat n)),
      complete_multipart_upload = (\<lambda>h k u ps. Inr ()),
      abort_multipart_upload = (\<lambda>h k u. Inr ()),
      list_object_versions = (\<lambda>h k. Inr []),
      delete_object = (\<lambda>h k v. Inr ())\<rparr>"

text \<open>
  A service with four kinds of object: \<open>a\<close> is being restored, \<open>b\<close> has
  been restored, the metadata of \<open>c\<close> cannot be read, and every other object
  has never been restored and refuses the restore request when it is \<open>e\<close>.
\<close>

definition restoring_header :: string where
  \<open>restoring_header = ''ongoing-request="true"''\<close>

definition restored_header :: string where
  \<open>restored_header = ''ongoing-request="false", expiry-date="Fri, 21 Dec 2012 00:00:00 GMT"''\<close>

definition mixed_env :: s3_env where
  "mixed_env =
     ok_env
       \<lparr>head_object := (\<lambda>h k.
          if k = ''a'' then Inr \<lparr>Restore = Some restoring_header, ContentLength = 7\<rparr>
          else if k = ''b'' then Inr \<lparr>Restore = Some restored_header, ContentLength = 7\<rparr>
          else if k = ''c'' then Inl (Exn ''Not Found'')
          else Inr \<lparr>Restore = None, ContentLength = 7\<rparr>),
        restore_object := (\<lambda>h k d t. if k = ''e'' then Inl (Exn ''Access Denied'') else Inr ())\<rparr>"

subsection \<open>Sample endpoints\<close>

text \<open>
  An interface endpoint for S3 under its regional service name, and two
  interface endpoints whose service names both carry \<open>.s3.\<close>.
\<close>

definition regional_s3_endpoint :: vpc_endpoint where
  "regional_s3_endpoint =
     \<lparr>VpcEndpointType = ''Interface'',
      ServiceName = ''com.amazonaws.us-east-1.s3'',
      DnsEntries = [''vpce-0a1b.s3.us-east-1.vpce.amazonaws.com'']\<rparr>"

definition first_endpoint :: vpc_endpoint where
  "first_endpoint =
     \<lparr>VpcEndpointType = ''Interface'',
      ServiceName = ''com.example.s3.us-east-1'',
      DnsEntries = [''first.example.com'']\<rparr>"

definition second_endpoint :: vpc_endpoint where
  "second_endpoint =
     \<lparr>VpcEndpointType = ''Interface'',
      ServiceName = ''com.example.s3.us-east-1'',
      DnsEntries = [''second.example.com'', ''other.example.com'']\<rparr>"

subsection \<open>A sample account\<close>

text \<open>
  Every profile has credentials; the production region has the two sample
  endpoints and a gateway endpoint, the other regions have none. The
  configuration already has a default section and a stale production section.
\<close>

definition sample_ec2 :: ec2_env where
  "sample_ec2 =
     \<lparr>session = (\<lambda>profile. Inr ()),
      describe_vpc_endpoints = (\<lambda>profile region.
        if region = ''us-east-1''
        then Inr [first_endpoint, second_endpoint,
                  \<lparr>VpcEndpointType = ''Gateway'', ServiceName = ''com.example.sts.us-east-1'',
                   DnsEntries = []\<rparr>]
        else Inr [])\<rparr>"

definition sample_config :: config where
  "sample_config =
     [(''default'', [(''region'', ''eu-west-1'')]),
      (''profile prod'', [(''region'', ''eu-west-1''), (''cli_pager'', '''')])]"

definition sample_result :: config where
  "sample_result =
     [(''default'', [(''region'', ''eu-west-1'')]),
      (''profile prod'',
       [(''region'', ''us-east-1''), (''cli_pager'', ''''),
        (''sso_start_url'', ''https://your-sso-portal.awsapps.com/start''),
        (''sso_region'', ''us-east-1''),
        (''sso_account_id'', ''123456789012''),
        (''sso_role_name'', ''ProdAdmin''),
        (''output'', ''json''),
        (''s3'', endpoint_value ''second.example.com'')]),
      (''profile dev'',
       [(''sso_start_url'', ''https://your-sso-portal.awsapps.com/start''),
        (''sso_region'', ''us-west-2''),
        (''sso_account_id'', ''210987654321''),
        (''sso_role_name'', ''DevPowerUser''),
        (''region'', ''us-west-2''),
        (''output'', ''json'')])]"

subsection \<open>A bucket behind the service\<close>

text \<open>
  The object versions a bucket holds, as the version listing reports them.
  A listing requested with \<^verbatim>\<open>Prefix=p\<close> returns the versions of every key
  that starts with \<open>p\<close>; \<^verbatim>\<open>delete_object(Key, VersionId)\<close> removes that
  version of that key. Only deletions are replayed on the bucket.
\<close>

type_synonym bucket = "object_version list"

fun bucket_step :: "bucket \<Rightarrow> event \<Rightarrow> bucket" where
  "bucket_step b (DeleteObject key vid) =
     filter (\<lambda>v. \<not> (vKey v = key \<and> VersionId v = vid)) b"
| "bucket_step b _ = b"

definition bucket_after :: "bucket \<Rightarrow> event list \<Rightarrow> bucket" where
  "bucket_after b h = foldl bucket_step b h"

definition bucket_env :: "bucket \<Rightarrow> s3_env" where
  "bucket_env b =
     ok_env\<lparr>list_object_versions :=
              (\<lambda>h p. Inr (filter (\<lambda>v. prefix p (vKey v)) (bucket_after b h)))\<rparr>"

text \<open>
  A bucket with one large restored object \<open>big\<close> that has an older archived
  version, on a service that refuses every copy.
\<close>

definition big_bucket :: bucket where
  "big_bucket =
     [\<lparr>vKey = ''big'', VersionId = ''v2'', IsLatest = True, vStorageClass = Some ''GLACIER''\<rparr>,
      \<lparr>vKey = ''big'', VersionId = ''v1'', IsLatest = False, vStorageClass = Some ''GLACIER''\<rparr>]"

definition no_copy_env :: s3_env where
  "no_copy_env =
     bucket_env big_bucket
       \<lparr>copy_object := (\<lambda>h k. Inl (Exn ''Service Unavailable'')),
        create_multipart_upload := (\<lambda>h k. Inl (Exn ''Service Unavailable''))\<rparr>"

text \<open>
  A bucket whose versioning was switched on late: \<open>report\<close> has only its
  current version, with the id \<open>null\<close>; \<open>report.bak\<close> has a current version
  and an archived older one whose id is \<open>null\<close> as well.
\<close>

definition shared_prefix_bucket :: bucket where
  "shared_prefix_bucket =
     [\<lparr>vKey = ''report'', VersionId = ''null'', IsLatest = True,
       vStorageClass = Some ''STANDARD''\<rparr>,
      \<lparr>vKey = ''report.bak'', VersionId = ''3HL4kqtJvjVBH40Nrjfkd'', IsLatest = True,
       vStorageClass = Some ''STANDARD''\<rparr>,
      \<lparr>vKey = ''report.bak'', VersionId = ''null'', IsLatest = False,
       vStorageClass = Some ''GLACIER''\<rparr>]"

subsection \<open>What the service reports over time\<close>






subsection \<open>Reading a listing\<close>

text \<open>The objects of a listing, page after page, and the versions cleanup deletes.\<close>

definition listed_objects :: "page list \<Rightarrow> s3_object list" where
  "listed_objects pages =
     concat (map (\<lambda>pg. case Contents pg of None \<Rightarrow> [] | Some objs \<Rightarrow> objs) pages)"

definition cold_noncurrent :: "object_version \<Rightarrow> bool" where
  "cold_noncurrent v \<longleftrightarrow>
     \<not> IsLatest v \<and> vStorageClass v \<in> {Some ''GLACIER'', Some ''DEEP_ARCHIVE''}"

text \<open>
  A bucket listing of an archived object \<open>g\<close> and a deep-archived object
  \<open>d\<close>, where \<open>g\<close> has a deep-archived older version.
\<close>

definition archive_env :: s3_env where
  "archive_env =
     ok_env
       \<lparr>list_objects_v2 := (\<lambda>h.
          Inr [\<lparr>Contents = Some [\<lparr>Key = ''d'', StorageClass = Some ''DEEP_ARCHIVE''\<rparr>]\<rparr>,
               \<lparr>Contents = None\<rparr>,
               \<lparr>Contents = Some [\<lparr>Key = ''g'', StorageClass = Some ''GLACIER''\<rparr>,
                                \<lparr>Key = ''s'', StorageClass = Some ''STANDARD''\<rparr>]\<rparr>]),
        list_object_versions := (\<lambda>h p.
          Inr [\<lparr>vKey = ''g'', VersionId = ''v2'', IsLatest = True,
                vStorageClass = Some ''STANDARD''\<rparr>,
               \<lparr>vKey = ''g'', VersionId = ''v1'', IsLatest = False,
                vStorageClass = Some ''DEEP_ARCHIVE''\<rparr>])\<rparr>"

section \<open>Verification\<close>

lemma delete_versions_events:
  assumes "\<And>vid. P (DeleteObject key vid)" and "\<And>l m. P (Log l m)"
  shows "\<exists>evs. fst (delete_versions env key vs h) = h @ evs \<and> (\<forall>e\<in>set evs. P e)"
proof (induction vs arbitrary: h)
  case Nil
  then show ?case by simp
next
  case (Cons v vs)
  show ?case
  proof (cases "\<not> IsLatest v \<and> vStorageClass v \<in> {Some ''GLACIER'', Some ''DEEP_ARCHIVE''}")
    case False
    then show ?thesis using Cons.IH [of h] by auto
  next
    case True
    show ?thesis
    proof (cases "delete_object env h key (VersionId v)")
      case (Inl e)
      then show ?thesis using True assms by simp
    next
      case (Inr u)
      let ?h = "h @ [DeleteObject key (VersionId v),
                     Log INFO (''Deleted Glacier version: '' @ key @ '' (version ''
                                  @ VersionId v @ '')'')]"
      from Cons.IH [of ?h] obtain evs where
        "fst (delete_versions env key vs ?h) = ?h @ evs" "\<forall>e\<in>set evs. P e" by blast
      then show ?thesis using True Inr assms by simp
    qed
  qed
qed

lemma cleanup_events:
  assumes "P (ListObjectVersions key)" and "\<And>vid. P (DeleteObject key vid)" and "\<And>l m. P (Log l m)"
  shows "\<exists>evs. cleanup_glacier_versions env key h = h @ evs \<and> (\<forall>e\<in>set evs. P e)"
proof (cases "list_object_versions env h key")
  case (Inl e)
  then show ?thesis using assms by (simp add: cleanup_glacier_versions_def)
next
  case (Inr versions)
  obtain evs where evs:
    "fst (delete_versions env key versions (h @ [ListObjectVersions key])) = (h @ [ListObjectVersions key]) @ evs"
    "\<forall>e\<in>set evs. P e"
    using delete_versions_events [of P key env versions "h @ [ListObjectVersions key]"] assms by blast
  show ?thesis
  proof (cases "delete_versions env key versions (h @ [ListObjectVersions key])")
    case (Pair h1 r)
    then show ?thesis using Inr evs assms
      by (cases r) (simp_all add: cleanup_glacier_versions_def)
  qed
qed

lemma upload_parts_events:
  assumes "\<And>n s e. P (UploadPartCopy key n uid key s e)" and "\<And>l m. P (Log l m)"
  shows "\<exists>evs. fst (upload_parts env key sz uid pc is h parts) = h @ evs \<and> (\<forall>e\<in>set evs. P e)"
proof (induction "is" arbitrary: h parts)
  case Nil
  then show ?case by simp
next
  case (Cons i "is")
  let ?start = "int i * PART_SIZE"
  let ?end = "min (?start + PART_SIZE - 1) (sz - 1)"
  show ?case
  proof (cases "upload_part_copy env h key (i + 1) uid ?start ?end")
    case (Inl e)
    then show ?thesis using assms by (simp add: Let_def)
  next
    case (Inr etag)
    let ?h = "h @ [UploadPartCopy key (i + 1) uid key ?start ?end,
                     Log INFO (''Copied part '' @ str_int (int i + 1) @ ''/''
                               @ str_int (int pc) @ '' for '' @ key)]"
    from Cons.IH [of ?h "parts @ [(etag, i + 1)]"] obtain evs where
      "fst (upload_parts env key sz uid pc is ?h (parts @ [(etag, i + 1)])) = ?h @ evs"
      "\<forall>e\<in>set evs. P e" by blast
    then show ?thesis using Inr assms by (simp add: Let_def)
  qed
qed

lemma abort_upload_events:
  assumes "P (AbortMultipartUpload key uid)" and "\<And>l m. P (Log l m)"
  shows "\<exists>evs. abort_upload env key uid e h = h @ evs \<and> (\<forall>e\<in>set evs. P e)"
  using assms by (auto simp: abort_upload_def Let_def split: sum.splits)

lemma multipart_copy_events:
  assumes "\<And>a b. P (CreateMultipartUpload key a b)"
    and "\<And>n u s e. P (UploadPartCopy key n u key s e)"
    and "\<And>u ps. P (CompleteMultipartUpload key u ps)"
    and "\<And>u. P (AbortMultipartUpload key u)"
    and "\<And>l m. P (Log l m)"
  shows "\<exists>evs. multipart_copy env key sz h = h @ evs \<and> (\<forall>e\<in>set evs. P e)"
proof -
  let ?h0 = "h @ [Log INFO (''Multipart copying '' @ key @ '' ('' @ str_int sz @ '' bytes)...'')]"
  let ?h1 = "?h0 @ [CreateMultipartUpload key ''STANDARD'' ''COPY'']"
  show ?thesis
  proof (cases "create_multipart_upload env ?h0 key")
    case (Inl e)
    then show ?thesis using assms by (simp add: multipart_copy_def Let_def)
  next
    case uid: (Inr uid)
    show ?thesis
    proof (cases "py_truediv sz PART_SIZE")
      case (Inl e)
      obtain evs where "abort_upload env key uid e ?h1 = ?h1 @ evs" "\<forall>e\<in>set evs. P e"
        using abort_upload_events [of P key uid env e ?h1] assms by blast
      then show ?thesis using uid Inl assms by (auto simp add: multipart_copy_def Let_def)
    next
      case ratio: (Inr ratio)
      let ?pc = "nat (math_ceil ratio)"
      obtain h2 r where up: "upload_parts env key sz uid ?pc [0..<?pc] ?h1 [] = (h2, r)"
        by (cases "upload_parts env key sz uid ?pc [0..<?pc] ?h1 []")
      obtain evs where evs: "h2 = ?h1 @ evs" "\<forall>e\<in>set evs. P e"
        using upload_parts_events [of P key uid env sz ?pc "[0..<?pc]" ?h1 "[]"] assms up by auto
      show ?thesis
      proof (cases r)
        case (Inl e)
        obtain evs' where "abort_upload env key uid e h2 = h2 @ evs'" "\<forall>e\<in>set evs'. P e"
          using abort_upload_events [of P key uid env e h2] assms by blast
        then show ?thesis using uid ratio up Inl evs assms
          by (auto simp add: multipart_copy_def Let_def)
      next
        case parts: (Inr parts)
        show ?thesis
        proof (cases "complete_multipart_upload env h2 key uid parts")
          case (Inl e)
          let ?h3 = "h2 @ [CompleteMultipartUpload key uid parts]"
          obtain evs' where "abort_upload env key uid e ?h3 = ?h3 @ evs'" "\<forall>e\<in>set evs'. P e"
            using abort_upload_events [of P key uid env e ?h3] assms by blast
          then show ?thesis using uid ratio up parts Inl evs assms
            by (auto simp add: multipart_copy_def Let_def)
        next
          case (Inr u)
          then show ?thesis using uid ratio up parts evs assms
            by (simp add: multipart_copy_def Let_def)
        qed
      qed
    qed
  qed
qed

lemma multipart_copy_starts:
  "\<exists>l evs. multipart_copy env key sz h =
     h @ [l, CreateMultipartUpload key ''STANDARD'' ''COPY''] @ evs \<and> event_key l = None"
proof -
  let ?h0 = "h @ [Log INFO (''Multipart copying '' @ key @ '' ('' @ str_int sz @ '' bytes)...'')]"
  let ?h1 = "?h0 @ [CreateMultipartUpload key ''STANDARD'' ''COPY'']"
  have "\<exists>evs. multipart_copy env key sz h = ?h1 @ evs"
  proof (cases "create_multipart_upload env ?h0 key")
    case (Inl e)
    then show ?thesis by (simp add: multipart_copy_def Let_def)
  next
    case uid: (Inr uid)
    show ?thesis
    proof (cases "py_truediv sz PART_SIZE")
      case (Inl e)
      then show ?thesis using uid abort_upload_events [of "\<lambda>_. True" key uid env e ?h1]
        by (auto simp add: multipart_copy_def Let_def)
    next
      case ratio: (Inr ratio)
      let ?pc = "nat (math_ceil ratio)"
      obtain h2 r where up: "upload_parts env key sz uid ?pc [0..<?pc] ?h1 [] = (h2, r)"
        by (cases "upload_parts env key sz uid ?pc [0..<?pc] ?h1 []")
      obtain evs where evs: "h2 = ?h1 @ evs"
        using upload_parts_events [of "\<lambda>_. True" key uid env sz ?pc "[0..<?pc]" ?h1 "[]"] up by auto
      show ?thesis
      proof (cases r)
        case (Inl e)
        then show ?thesis using uid ratio up evs abort_upload_events [of "\<lambda>_. True" key uid env e h2]
          by (auto simp add: multipart_copy_def Let_def)
      next
        case parts: (Inr parts)
        show ?thesis
        proof (cases "complete_multipart_upload env h2 key uid parts")
          case (Inl e)
          then show ?thesis using uid ratio up parts evs
              abort_upload_events [of "\<lambda>_. True" key uid env e "h2 @ [CompleteMultipartUpload key uid parts]"]
            by (auto simp add: multipart_copy_def Let_def)
        next
          case (Inr u)
          then show ?thesis using uid ratio up parts evs
            by (simp add: multipart_copy_def Let_def)
        qed
      qed
    qed
  qed
  then show ?thesis by auto
qed

lemma find_skip: "\<forall>x\<in>set xs. \<not> P x \<Longrightarrow> find P (xs @ ys) = find P ys"
  by (induction xs) auto

lemma transition_key_events:
  assumes "\<And>a b. P (CopyObject key key a b)"
    and "\<And>a b. P (CreateMultipartUpload key a b)"
    and "\<And>n u s e. P (UploadPartCopy key n u key s e)"
    and "\<And>u ps. P (CompleteMultipartUpload key u ps)"
    and "\<And>u. P (AbortMultipartUpload key u)"
    and "P (ListObjectVersions key)" and "\<And>vid. P (DeleteObject key vid)"
    and "\<And>l m. P (Log l m)"
  shows "\<exists>evs. transition_key env key sz h = h @ evs \<and> (\<forall>e\<in>set evs. P e)"
proof (cases "sz > 5 * 1024 * 1024 * 1024")
  case True
  obtain evs where m: "multipart_copy env key sz h = h @ evs" "\<forall>e\<in>set evs. P e"
    using multipart_copy_events [of P key env sz h] assms by blast
  obtain evs' where "cleanup_glacier_versions env key (h @ evs) = (h @ evs) @ evs'"
    "\<forall>e\<in>set evs'. P e"
    using cleanup_events [of P key env "h @ evs"] assms by blast
  then show ?thesis using True m by (auto simp: transition_key_def)
next
  case False
  show ?thesis
  proof (cases "copy_object env h key")
    case (Inl e)
    then show ?thesis using False assms by (simp add: transition_key_def)
  next
    case (Inr u)
    let ?h = "h @ [CopyObject key key ''STANDARD'' ''COPY'',
                   Log INFO (''Standard copy complete for: '' @ key)]"
    obtain evs' where "cleanup_glacier_versions env key ?h = ?h @ evs'" "\<forall>e\<in>set evs'. P e"
      using cleanup_events [of P key env ?h] assms by blast
    then show ?thesis using False Inr assms by (auto simp: transition_key_def)
  qed
qed

lemma transition_key_small:
  assumes "sz \<le> 5 * 1024 * 1024 * 1024"
  shows "\<exists>evs. transition_key env key sz h = h @ CopyObject key key ''STANDARD'' ''COPY'' # evs
           \<and> (\<forall>e\<in>set evs. \<not> is_copy_call e \<and> \<not> is_multipart_call e)"
proof (cases "copy_object env h key")
  case (Inl e)
  then show ?thesis using assms by (simp add: transition_key_def)
next
  case (Inr u)
  let ?h = "h @ [CopyObject key key ''STANDARD'' ''COPY'',
                 Log INFO (''Standard copy complete for: '' @ key)]"
  obtain evs' where "cleanup_glacier_versions env key ?h = ?h @ evs'"
    "\<forall>e\<in>set evs'. \<not> is_copy_call e \<and> \<not> is_multipart_call e"
    using cleanup_events [of "\<lambda>e. \<not> is_copy_call e \<and> \<not> is_multipart_call e" key env ?h] by auto
  then show ?thesis using assms Inr by (auto simp: transition_key_def)
qed

lemma transition_key_large:
  assumes "sz > 5 * 1024 * 1024 * 1024"
  shows "\<exists>l evs. transition_key env key sz h =
             h @ l # CreateMultipartUpload key ''STANDARD'' ''COPY'' # evs
           \<and> event_key l = None \<and> (\<forall>e\<in>set evs. \<not> is_copy_call e)"
proof -
  obtain l evs where s: "multipart_copy env key sz h =
      h @ [l, CreateMultipartUpload key ''STANDARD'' ''COPY''] @ evs" "event_key l = None"
    using multipart_copy_starts [of env key sz h] by blast
  obtain evs1 where m: "multipart_copy env key sz h = h @ evs1" "\<forall>e\<in>set evs1. \<not> is_copy_call e"
    using multipart_copy_events [of "\<lambda>e. \<not> is_copy_call e" key env sz h] by auto
  from s m have evs: "\<forall>e\<in>set evs. \<not> is_copy_call e" by auto
  let ?h = "h @ [l, CreateMultipartUpload key ''STANDARD'' ''COPY''] @ evs"
  obtain evs' where "cleanup_glacier_versions env key ?h = ?h @ evs'"
    "\<forall>e\<in>set evs'. \<not> is_copy_call e"
    using cleanup_events [of "\<lambda>e. \<not> is_copy_call e" key env ?h] by auto
  then show ?thesis using assms s evs by (auto simp: transition_key_def)
qed

lemma transition_items_append:
  "transition_items env (xs @ ys) h = transition_items env ys (transition_items env xs h)"
  by (induction xs arbitrary: h) auto

lemma transition_items_other_keys:
  assumes "key \<notin> fst ` set items"
  shows "\<exists>evs. transition_items env items h = h @ evs \<and> (\<forall>e\<in>set evs. event_key e \<noteq> Some key)"
  using assms
proof (induction items arbitrary: h)
  case Nil
  then show ?case by simp
next
  case (Cons item items)
  obtain k sz where item: "item = (k, sz)" by (cases item)
  with Cons.prems have ne: "k \<noteq> key" by auto
  obtain evs where k: "transition_key env k sz h = h @ evs" "\<forall>e\<in>set evs. event_key e \<noteq> Some key"
    using transition_key_events [of "\<lambda>e. event_key e \<noteq> Some key" k env sz h] ne by auto
  obtain evs' where "transition_items env items (h @ evs) = (h @ evs) @ evs'"
    "\<forall>e\<in>set evs'. event_key e \<noteq> Some key"
    using Cons.IH [of "h @ evs"] Cons.prems by auto
  then show ?case using item k by auto
qed

text \<open>
  C3. In the transition phase every restored object of at most 5 GiB
  (5 * 1024^3 bytes, the bound included) goes through the single-call copy:
  the first remote call made on its key is the in-place \<open>CopyObject\<close> and no
  multipart call is ever made on that key. Every object larger than 5 GiB,
  even by one byte, goes through the multipart copy: the first remote call on
  its key is \<open>CreateMultipartUpload\<close> and no \<open>CopyObject\<close> is made on it.
\<close>

theorem transition_path_by_size:
  assumes "distinct (map fst restored_objects)" and "(key, sz) \<in> set restored_objects"
  shows "\<exists>evs. transition_to_standard env restored_objects h = h @ evs \<and>
           (sz \<le> 5 * 1024 ^ 3 \<longrightarrow>
              find (\<lambda>e. event_key e = Some key) evs
                = Some (CopyObject key key ''STANDARD'' ''COPY'') \<and>
              (\<forall>e\<in>set evs. is_multipart_call e \<longrightarrow> event_key e \<noteq> Some key)) \<and>
           (sz > 5 * 1024 ^ 3 \<longrightarrow>
              find (\<lambda>e. event_key e = Some key) evs
                = Some (CreateMultipartUpload key ''STANDARD'' ''COPY'') \<and>
              (\<forall>e\<in>set evs. is_copy_call e \<longrightarrow> event_key e \<noteq> Some key))"
proof -
  from assms(2) obtain pre post where split: "restored_objects = pre @ (key, sz) # post"
    by (auto dest: split_list)
  with assms(1) have pre: "key \<notin> fst ` set pre" and post: "key \<notin> fst ` set post"
    by auto
  let ?h0 = "h @ [Log INFO ''Transitioning restored objects to STANDARD storage...'']"
  obtain e1 where e1: "transition_items env pre ?h0 = ?h0 @ e1"
    "\<forall>e\<in>set e1. event_key e \<noteq> Some key"
    using transition_items_other_keys [OF pre, of env ?h0] by blast
  obtain e2 where e2: "transition_key env key sz (?h0 @ e1) = (?h0 @ e1) @ e2"
    using transition_key_events [of "\<lambda>_. True" key env sz "?h0 @ e1"] by auto
  obtain e3 where e3: "transition_items env post ((?h0 @ e1) @ e2) = ((?h0 @ e1) @ e2) @ e3"
    "\<forall>e\<in>set e3. event_key e \<noteq> Some key"
    using transition_items_other_keys [OF post, of env "(?h0 @ e1) @ e2"] by blast
  let ?evs = "Log INFO ''Transitioning restored objects to STANDARD storage...'' # e1 @ e2 @ e3"
  have run: "transition_to_standard env restored_objects h = h @ ?evs"
    using split e1 e2 e3 by (simp add: transition_to_standard_def transition_items_append)
  have first: "find (\<lambda>e. event_key e = Some key) ?evs = find (\<lambda>e. event_key e = Some key) (e2 @ e3)"
    using e1(2) by (simp add: find_skip)
  have small: "find (\<lambda>e. event_key e = Some key) ?evs
                = Some (CopyObject key key ''STANDARD'' ''COPY'') \<and>
              (\<forall>e\<in>set ?evs. is_multipart_call e \<longrightarrow> event_key e \<noteq> Some key)"
    if "sz \<le> 5 * 1024 ^ 3"
  proof -
    from that obtain evs where "transition_key env key sz (?h0 @ e1) =
        (?h0 @ e1) @ CopyObject key key ''STANDARD'' ''COPY'' # evs"
      "\<forall>e\<in>set evs. \<not> is_copy_call e \<and> \<not> is_multipart_call e"
      using transition_key_small [of sz env key "?h0 @ e1"] by auto
    with e2 have "e2 = CopyObject key key ''STANDARD'' ''COPY'' # evs" by simp
    then show ?thesis using first e1(2) e3(2) \<open>\<forall>e\<in>set evs. _\<close> by auto
  qed
  have large: "find (\<lambda>e. event_key e = Some key) ?evs
                = Some (CreateMultipartUpload key ''STANDARD'' ''COPY'') \<and>
              (\<forall>e\<in>set ?evs. is_copy_call e \<longrightarrow> event_key e \<noteq> Some key)"
    if "sz > 5 * 1024 ^ 3"
  proof -
    from that obtain l evs where "transition_key env key sz (?h0 @ e1) =
        (?h0 @ e1) @ l # CreateMultipartUpload key ''STANDARD'' ''COPY'' # evs"
      and l: "event_key l = None" and evs: "\<forall>e\<in>set evs. \<not> is_copy_call e"
      using transition_key_large [of sz env key "?h0 @ e1"] by auto
    with e2 have "e2 = l # CreateMultipartUpload key ''STANDARD'' ''COPY'' # evs" by simp
    moreover have "\<not> is_copy_call l" using l by (cases l) auto
    ultimately show ?thesis using first e1(2) e3(2) l evs by auto
  qed
  show ?thesis using run small large by blast
qed

theorem transition_path_by_size_witness:
  "(\<exists>evs. transition_to_standard ok_env [(''a'', 5368709120), (''b'', 5368709121)] [] = [] @ evs \<and>
      find (\<lambda>e. event_key e = Some ''a'') evs = Some (CopyObject ''a'' ''a'' ''STANDARD'' ''COPY'') \<and>
      (\<forall>e\<in>set evs. is_multipart_call e \<longrightarrow> event_key e \<noteq> Some ''a'')) \<and>
   (\<exists>evs. transition_to_standard ok_env [(''a'', 5368709120), (''b'', 5368709121)] [] = [] @ evs \<and>
      find (\<lambda>e. event_key e = Some ''b'') evs
        = Some (CreateMultipartUpload ''b'' ''STANDARD'' ''COPY'') \<and>
      (\<forall>e\<in>set evs. is_copy_call e \<longrightarrow> event_key e \<noteq> Some ''b''))"
  using transition_path_by_size [of "[(''a'', 5368709120), (''b'', 5368709121)]" "''a''" 5368709120 ok_env "[]"]
    transition_path_by_size [of "[(''a'', 5368709120), (''b'', 5368709121)]" "''b''" 5368709121 ok_env "[]"]
  by simp

lemma initiate_restore_append:
  "initiate_restore env (xs @ ys) h = initiate_restore env ys (initiate_restore env xs h)"
  by (induction xs arbitrary: h) auto

lemma initiate_restore_key_head:
  "\<exists>evs. initiate_restore_key env key h = h @ HeadObject key # evs \<and>
         (\<forall>e\<in>set evs. \<not> is_head_call e)"
  by (auto simp: initiate_restore_key_def split: sum.splits)

lemma initiate_restore_heads:
  "\<exists>evs. initiate_restore env keys h = h @ evs \<and> filter is_head_call evs = map HeadObject keys"
proof (induction keys arbitrary: h)
  case Nil
  then show ?case by simp
next
  case (Cons key keys)
  obtain evs where k: "initiate_restore_key env key h = h @ HeadObject key # evs"
    "\<forall>e\<in>set evs. \<not> is_head_call e"
    using initiate_restore_key_head by blast
  obtain evs' where "initiate_restore env keys (h @ HeadObject key # evs)
      = (h @ HeadObject key # evs) @ evs'" "filter is_head_call evs' = map HeadObject keys"
    using Cons.IH by blast
  then show ?case using k by simp
qed

lemma mixed_env_simps:
  "head_object mixed_env h k =
     (if k = ''a'' then Inr \<lparr>Restore = Some restoring_header, ContentLength = 7\<rparr>
      else if k = ''b'' then Inr \<lparr>Restore = Some restored_header, ContentLength = 7\<rparr>
      else if k = ''c'' then Inl (Exn ''Not Found'')
      else Inr \<lparr>Restore = None, ContentLength = 7\<rparr>)"
  "restore_object mixed_env h k d t = (if k = ''e'' then Inl (Exn ''Access Denied'') else Inr ())"
  by (simp_all add: mixed_env_def)

lemma restore_has_samples:
  "restore_has ongoing_true \<lparr>Restore = Some restoring_header, ContentLength = n\<rparr>"
  "\<not> restore_has ongoing_true \<lparr>Restore = Some restored_header, ContentLength = n\<rparr>"
  "restore_has ongoing_false \<lparr>Restore = Some restored_header, ContentLength = n\<rparr>"
  "\<not> restore_has m \<lparr>Restore = None, ContentLength = n\<rparr>"
  by (simp_all add: restore_has_def ongoing_true_def ongoing_false_def
      restoring_header_def restored_header_def)

lemma contains_iff: "contains sub s \<longleftrightarrow> (\<exists>ps ss. s = ps @ sub @ ss)"
proof (induction s)
  case Nil
  then show ?case by auto
next
  case (Cons c cs)
  have "contains sub (c # cs) \<longleftrightarrow> prefix sub (c # cs) \<or> sublist sub cs"
    using Cons.IH by (simp add: sublist_def)
  also have "\<dots> \<longleftrightarrow> sublist sub (c # cs)" by (simp add: sublist_Cons_right)
  finally show ?case by (simp add: sublist_def)
qed

lemma match_services_lookup:
  assumes "match_services ep svcs d = Inr d'"
  shows "map_of d' svc =
           (if svc \<in> set svcs \<and> contains (''.'' @ svc @ ''.'') (ServiceName ep)
            then Some (hd (DnsEntries ep)) else map_of d svc)"
  using assms
proof (induction svcs arbitrary: d)
  case Nil
  then show ?case by simp
next
  case (Cons s svcs)
  show ?case
  proof (cases "contains (''.'' @ s @ ''.'') (ServiceName ep)")
    case False
    then show ?thesis using Cons by auto
  next
    case True
    then obtain dns rest where dns: "DnsEntries ep = dns # rest"
      using Cons.prems by (cases "DnsEntries ep") auto
    with True Cons.prems have "match_services ep svcs (AList.update s dns d) = Inr d'" by simp
    from Cons.IH [OF this] show ?thesis using True dns by (auto simp: update_conv')
  qed
qed

lemma match_services_nonempty:
  assumes "match_services ep svcs d = Inr d'" and "svc \<in> set svcs"
    and "contains (''.'' @ svc @ ''.'') (ServiceName ep)"
  shows "DnsEntries ep \<noteq> []"
  using assms by (induction svcs arbitrary: d) (auto split: if_splits list.splits)

text \<open>The endpoints that the scan attributes to a service.\<close>

lemma scan_endpoints_lookup:
  assumes "scan_endpoints eps d = Inr d'"
  shows "map_of d' svc =
           (case filter (\<lambda>ep. VpcEndpointType ep = ''Interface'' \<and> svc \<in> set services \<and>
                            contains (''.'' @ svc @ ''.'') (ServiceName ep)) eps of
              [] \<Rightarrow> map_of d svc
            | ms \<Rightarrow> Some (hd (DnsEntries (last ms))))"
  using assms
proof (induction eps arbitrary: d)
  case Nil
  then show ?case by simp
next
  case (Cons ep eps)
  show ?case
  proof (cases "VpcEndpointType ep = ''Interface''")
    case False
    then show ?thesis using Cons by auto
  next
    case True
    then obtain d1 where d1: "match_services ep services d = Inr d1"
      and rest: "scan_endpoints eps d1 = Inr d'"
      using Cons.prems by (auto split: sum.splits)
    from Cons.IH [OF rest] match_services_lookup [OF d1, of svc] True
    show ?thesis by (auto split: list.splits)
  qed
qed

lemma scan_endpoints_nonempty:
  assumes "scan_endpoints eps d = Inr d'" and "ep \<in> set eps"
    and "VpcEndpointType ep = ''Interface''" and "svc \<in> set services"
    and "contains (''.'' @ svc @ ''.'') (ServiceName ep)"
  shows "DnsEntries ep \<noteq> []"
  using assms
proof (induction eps arbitrary: d)
  case Nil
  then show ?case by simp
next
  case (Cons x eps)
  then show ?case
    by (auto split: if_splits sum.splits dest: match_services_nonempty)
qed

lemma case_nonempty: "xs \<noteq> [] \<Longrightarrow> (case xs of [] \<Rightarrow> a | y # ys \<Rightarrow> f (y # ys)) = f xs"
  by (cases xs) auto

text \<open>
  C7, as the code has it. When the scan of the endpoints succeeds, a service
  identifier of the probed list gets an entry if and only if some enumerated
  endpoint has type \<open>Interface\<close> and a service name that contains the
  identifier enclosed in dots (\<open>.svc.\<close>); the recorded hostname is the first
  DNS name of such an endpoint. An endpoint of another type, or whose name
  lacks the dotted identifier, contributes nothing.
\<close>

theorem endpoint_attribution:
  assumes "service_endpoints eps = Inr d"
  shows "(map_of d svc \<noteq> None \<longleftrightarrow>
            svc \<in> set services \<and>
            (\<exists>ep\<in>set eps. VpcEndpointType ep = ''Interface'' \<and>
               (\<exists>a b. ServiceName ep = a @ (''.'' @ svc @ ''.'') @ b))) \<and>
         (\<forall>host. map_of d svc = Some host \<longrightarrow>
            (\<exists>ep\<in>set eps. VpcEndpointType ep = ''Interface'' \<and>
               (\<exists>a b. ServiceName ep = a @ (''.'' @ svc @ ''.'') @ b) \<and>
               DnsEntries ep \<noteq> [] \<and> host = hd (DnsEntries ep)))"
proof -
  let ?m = "\<lambda>ep. VpcEndpointType ep = ''Interface'' \<and> svc \<in> set services \<and>
                  contains (''.'' @ svc @ ''.'') (ServiceName ep)"
  from assms have scan: "scan_endpoints eps [] = Inr d" by (simp add: service_endpoints_def)
  have look: "map_of d svc =
      (case filter ?m eps of [] \<Rightarrow> None | ms \<Rightarrow> Some (hd (DnsEntries (last ms))))"
    using scan_endpoints_lookup [OF scan, of svc] by (auto split: list.splits)
  show ?thesis
  proof (cases "filter ?m eps")
    case Nil
    then have "\<forall>ep\<in>set eps. \<not> ?m ep" by (simp add: filter_empty_conv)
    then show ?thesis using look Nil by (auto simp: contains_iff)
  next
    case (Cons m ms)
    then have "last (m # ms) \<in> set (filter ?m eps)" by (metis last_in_set list.discI)
    then have mem: "last (m # ms) \<in> set eps" and cond: "?m (last (m # ms))" by auto
    have ne: "DnsEntries (last (m # ms)) \<noteq> []"
      using scan_endpoints_nonempty [OF scan mem] cond by blast
    have val: "map_of d svc = Some (hd (DnsEntries (last (m # ms))))"
      using look Cons by simp
    from cond obtain a b where name: "ServiceName (last (m # ms)) = a @ (''.'' @ svc @ ''.'') @ b"
      unfolding contains_iff by blast
    have ex: "\<exists>ep\<in>set eps. VpcEndpointType ep = ''Interface'' \<and>
               (\<exists>a b. ServiceName ep = a @ (''.'' @ svc @ ''.'') @ b) \<and>
               DnsEntries ep \<noteq> [] \<and> hd (DnsEntries (last (m # ms))) = hd (DnsEntries ep)"
      using mem cond name ne by blast
    then have "\<exists>ep\<in>set eps. VpcEndpointType ep = ''Interface'' \<and>
               (\<exists>a b. ServiceName ep = a @ (''.'' @ svc @ ''.'') @ b)" by blast
    with cond have left: "map_of d svc \<noteq> None \<longleftrightarrow>
            svc \<in> set services \<and>
            (\<exists>ep\<in>set eps. VpcEndpointType ep = ''Interface'' \<and>
               (\<exists>a b. ServiceName ep = a @ (''.'' @ svc @ ''.'') @ b))"
      using val by simp
    have right: "\<forall>host. map_of d svc = Some host \<longrightarrow>
            (\<exists>ep\<in>set eps. VpcEndpointType ep = ''Interface'' \<and>
               (\<exists>a b. ServiceName ep = a @ (''.'' @ svc @ ''.'') @ b) \<and>
               DnsEntries ep \<noteq> [] \<and> host = hd (DnsEntries ep))"
      using val ex by simp
    show ?thesis using left right by (rule conjI)
  qed
qed

theorem endpoint_attribution_witness:
  "(map_of [(''s3'', ''second.example.com'')] ''s3'' \<noteq> None \<longleftrightarrow>
      ''s3'' \<in> set services \<and>
      (\<exists>ep\<in>set [first_endpoint, second_endpoint]. VpcEndpointType ep = ''Interface'' \<and>
         (\<exists>a b. ServiceName ep = a @ (''.'' @ ''s3'' @ ''.'') @ b))) \<and>
   (\<exists>ep\<in>set [first_endpoint, second_endpoint]. VpcEndpointType ep = ''Interface'' \<and>
      (\<exists>a b. ServiceName ep = a @ (''.'' @ ''s3'' @ ''.'') @ b) \<and>
      DnsEntries ep \<noteq> [] \<and> ''second.example.com'' = hd (DnsEntries ep))"
proof -
  have run: "service_endpoints [first_endpoint, second_endpoint] = Inr [(''s3'', ''second.example.com'')]"
    by (simp add: service_endpoints_def services_def first_endpoint_def second_endpoint_def)
  show ?thesis using endpoint_attribution [OF run, of "''s3''"] by simp
qed

text \<open>
  C7 as stated fails: an \<open>Interface\<close> endpoint whose service name contains
  \<open>s3\<close>, but not \<open>.s3.\<close>, gets no entry.
\<close>

theorem endpoint_attribution_counterexample:
  "VpcEndpointType regional_s3_endpoint = ''Interface'' \<and>
   contains ''s3'' (ServiceName regional_s3_endpoint) \<and>
   ''s3'' \<in> set services \<and>
   service_endpoints [regional_s3_endpoint] = Inr []"
  by (simp add: service_endpoints_def services_def regional_s3_endpoint_def)

text \<open>
  C8, as the code has it. When two or more enumerated endpoints match the
  same service identifier, the one encountered last determines the hostname
  recorded for the service: each match overwrites the entry.
\<close>

theorem last_endpoint_wins:
  assumes "service_endpoints (pre @ ep # post) = Inr d"
    and "VpcEndpointType ep = ''Interface''" and "svc \<in> set services"
    and "contains (''.'' @ svc @ ''.'') (ServiceName ep)"
    and "\<forall>ep'\<in>set post. \<not> (VpcEndpointType ep' = ''Interface'' \<and>
                              contains (''.'' @ svc @ ''.'') (ServiceName ep'))"
  shows "DnsEntries ep \<noteq> [] \<and> map_of d svc = Some (hd (DnsEntries ep))"
proof -
  let ?m = "\<lambda>ep. VpcEndpointType ep = ''Interface'' \<and> svc \<in> set services \<and>
                  contains (''.'' @ svc @ ''.'') (ServiceName ep)"
  from assms(1) have scan: "scan_endpoints (pre @ ep # post) [] = Inr d"
    by (simp add: service_endpoints_def)
  have "filter ?m post = []" using assms(5) by (auto simp: filter_empty_conv)
  then have f: "filter ?m (pre @ ep # post) = filter ?m pre @ [ep]" using assms(2-4) by simp
  have "map_of d svc =
      (case filter ?m (pre @ ep # post) of [] \<Rightarrow> map_of [] svc
       | ms \<Rightarrow> Some (hd (DnsEntries (last ms))))"
    using scan_endpoints_lookup [OF scan, of svc] .
  also have "\<dots> = Some (hd (DnsEntries (last (filter ?m pre @ [ep]))))"
    unfolding f by (rule case_nonempty) simp
  finally have "map_of d svc = Some (hd (DnsEntries ep))" by simp
  moreover have "DnsEntries ep \<noteq> []"
    using scan_endpoints_nonempty [OF scan _ assms(2-4)] by simp
  ultimately show ?thesis by simp
qed

theorem last_endpoint_wins_witness:
  "DnsEntries second_endpoint \<noteq> [] \<and>
   map_of [(''s3'', ''second.example.com'')] ''s3'' = Some (hd (DnsEntries second_endpoint))"
proof -
  have run: "service_endpoints ([first_endpoint] @ second_endpoint # []) =
      Inr [(''s3'', ''second.example.com'')]"
    by (simp add: service_endpoints_def services_def first_endpoint_def second_endpoint_def)
  show ?thesis
    using last_endpoint_wins [OF run, of "''s3''"]
    by (simp add: services_def second_endpoint_def)
qed

text \<open>
  C8 as stated fails: of two endpoints matching \<open>s3\<close>, the hostname of the
  second is recorded and that of the first is lost.
\<close>

theorem first_endpoint_counterexample:
  "service_endpoints [first_endpoint, second_endpoint] = Inr [(''s3'', ''second.example.com'')] \<and>
   hd (DnsEntries first_endpoint) = ''first.example.com''"
  by (simp add: service_endpoints_def services_def first_endpoint_def second_endpoint_def)

lemma config_set_other:
  assumes "config_set config section option val = Inr config'"
  shows "filter (\<lambda>(s, _). s \<noteq> section) config' = filter (\<lambda>(s, _). s \<noteq> section) config"
    and "map fst config' = map fst config"
proof -
  from assms obtain opts where "map_of config section = Some opts"
    and c: "config' = AList.update section (AList.update option val opts) config"
    by (auto simp: config_set_def split: option.splits)
  have "\<And>v. filter (\<lambda>(s, _). s \<noteq> section) (AList.update section v config)
      = filter (\<lambda>(s, _). s \<noteq> section) config"
    by (induction config) auto
  then show "filter (\<lambda>(s, _). s \<noteq> section) config' = filter (\<lambda>(s, _). s \<noteq> section) config"
    using c by simp
  have "section \<in> fst ` set config" using \<open>map_of config section = Some opts\<close>
    by (metis domI dom_map_of_conv_image_fst)
  then have "\<And>v. map fst (AList.update section v config) = map fst config"
    by (induction config) auto
  then show "map fst config' = map fst config" using c by simp
qed

lemma config_set_lookup:
  assumes "config_set config section option val = Inr config'"
  shows "\<exists>opts. map_of config section = Some opts \<and>
           map_of config' section = Some (AList.update option val opts)"
  using assms by (auto simp: config_set_def update_conv' split: option.splits)

lemma set_options_other:
  assumes "set_options section kvs config = Inr config'"
  shows "filter (\<lambda>(s, _). s \<noteq> section) config' = filter (\<lambda>(s, _). s \<noteq> section) config"
  using assms
proof (induction kvs arbitrary: config)
  case Nil
  then show ?case by simp
next
  case (Cons kv kvs)
  obtain k v where kv: "kv = (k, v)" by (cases kv)
  with Cons.prems obtain c1 where c1: "config_set config section k v = Inr c1"
    and rest: "set_options section kvs c1 = Inr config'"
    by (auto split: sum.splits)
  show ?case using Cons.IH [OF rest] config_set_other(1) [OF c1] by simp
qed

text \<open>After a run of assignments, an option holds the value assigned to it last.\<close>

lemma set_options_lookup:
  assumes "set_options section kvs config = Inr config'"
    and "map_of config section = Some opts"
  shows "\<exists>opts'. map_of config' section = Some opts' \<and>
           (\<forall>k. map_of opts' k = (case map_of (rev kvs) k of None \<Rightarrow> map_of opts k | Some v \<Rightarrow> Some v))"
  using assms
proof (induction kvs arbitrary: config opts)
  case Nil
  then show ?case by simp
next
  case (Cons kv kvs)
  obtain k v where kv: "kv = (k, v)" by (cases kv)
  with Cons.prems obtain c1 where c1: "config_set config section k v = Inr c1"
    and rest: "set_options section kvs c1 = Inr config'"
    by (auto split: sum.splits)
  from config_set_lookup [OF c1] Cons.prems(2)
  have l1: "map_of c1 section = Some (AList.update k v opts)" by simp
  from Cons.IH [OF rest l1] obtain opts' where o: "map_of config' section = Some opts'"
    "\<forall>k'. map_of opts' k' =
        (case map_of (rev kvs) k' of None \<Rightarrow> map_of (AList.update k v opts) k' | Some v \<Rightarrow> Some v)"
    by blast
  have "\<forall>k'. map_of opts' k' =
      (case map_of (rev (kv # kvs)) k' of None \<Rightarrow> map_of opts k' | Some v \<Rightarrow> Some v)"
    using o(2) kv by (auto simp: update_conv' map_add_def split: option.splits)
  then show ?case using o(1) by blast
qed

lemma service_endpoints_keys:
  assumes "service_endpoints eps = Inr d"
  shows "fst ` set d \<subseteq> set services"
proof
  fix svc assume "svc \<in> fst ` set d"
  then have some: "map_of d svc \<noteq> None" by (metis domIff dom_map_of_conv_image_fst)
  from assms have scan: "scan_endpoints eps [] = Inr d" by (simp add: service_endpoints_def)
  show "svc \<in> set services"
  proof (rule ccontr)
    assume "svc \<notin> set services"
    then have "filter (\<lambda>ep. VpcEndpointType ep = ''Interface'' \<and> svc \<in> set services \<and>
                            contains (''.'' @ svc @ ''.'') (ServiceName ep)) eps = []"
      by simp
    then have "map_of d svc = None" using scan_endpoints_lookup [OF scan, of svc] by simp
    with some show False by simp
  qed
qed

lemma map_of_filter_other:
  "y \<noteq> x \<Longrightarrow> map_of (filter (\<lambda>(s, _). s \<noteq> x) c) y = map_of c y"
  by (induction c) auto

lemma map_of_rev_append_other:
  "k \<notin> fst ` set ys \<Longrightarrow> map_of (rev (xs @ ys)) k = map_of (rev xs) k"
proof -
  assume "k \<notin> fst ` set ys"
  then have "map_of (rev ys) k = None" by (simp add: map_of_eq_None_iff)
  then show ?thesis by (simp add: map_add_def)
qed

text \<open>The steps of \<open>provision_profile\<close> when it succeeds.\<close>

lemma provision_profile_steps:
  assumes "provision_profile env profile config = Inr config'"
  obtains info eps svc_endpoints config1 where
    "sso_info profile = Some info"
    "describe_vpc_endpoints env profile (region info) = Inr eps"
    "service_endpoints eps = Inr svc_endpoints"
    "(if has_section config (''profile '' @ profile) then Inr config
      else add_section config (''profile '' @ profile)) = Inr config1"
    "set_options (''profile '' @ profile)
       ([(''sso_start_url'', sso_start_url info),
         (''sso_region'', sso_region info),
         (''sso_account_id'', sso_account_id info),
         (''sso_role_name'', sso_role_name info),
         (''region'', region info),
         (''output'', ''json'')]
        @ map (\<lambda>(svc, host). (svc, endpoint_value host)) svc_endpoints) config1 = Inr config'"
  using assms unfolding provision_profile_def Let_def
  by (simp split: sum.splits option.splits del: set_options.simps)

lemma provision_profile_other:
  assumes "provision_profile env profile config = Inr config'"
  shows "filter (\<lambda>(s, _). s \<noteq> ''profile '' @ profile) config'
       = filter (\<lambda>(s, _). s \<noteq> ''profile '' @ profile) config"
proof -
  let ?section = "''profile '' @ profile"
  from assms obtain kvs config1 where
    c1: "(if has_section config ?section then Inr config else add_section config ?section) = Inr config1"
    and set: "set_options ?section kvs config1 = Inr config'"
    by (rule provision_profile_steps)
  have "filter (\<lambda>(s, _). s \<noteq> ?section) config1 = filter (\<lambda>(s, _). s \<noteq> ?section) config"
    using c1 by (auto simp: add_section_def split: if_splits)
  then show ?thesis using set_options_other [OF set] by simp
qed

lemma provision_profile_section:
  assumes "provision_profile env profile config = Inr config'"
  shows "\<exists>info opts. sso_info profile = Some info \<and>
           map_of config' (''profile '' @ profile) = Some opts \<and>
           map_of opts ''sso_start_url'' = Some (sso_start_url info) \<and>
           map_of opts ''sso_region'' = Some (sso_region info) \<and>
           map_of opts ''sso_account_id'' = Some (sso_account_id info) \<and>
           map_of opts ''sso_role_name'' = Some (sso_role_name info) \<and>
           map_of opts ''region'' = Some (region info) \<and>
           map_of opts ''output'' = Some ''json''"
proof -
  let ?section = "''profile '' @ profile"
  from assms obtain info eps svc_endpoints config1 where
    info: "sso_info profile = Some info"
    and svc: "service_endpoints eps = Inr svc_endpoints"
    and c1: "(if has_section config ?section then Inr config else add_section config ?section) = Inr config1"
    and set: "set_options ?section
       ([(''sso_start_url'', sso_start_url info),
         (''sso_region'', sso_region info),
         (''sso_account_id'', sso_account_id info),
         (''sso_role_name'', sso_role_name info),
         (''region'', region info),
         (''output'', ''json'')]
        @ map (\<lambda>(svc, host). (svc, endpoint_value host)) svc_endpoints) config1 = Inr config'"
    by (rule provision_profile_steps)
  let ?static = "[(''sso_start_url'', sso_start_url info),
         (''sso_region'', sso_region info),
         (''sso_account_id'', sso_account_id info),
         (''sso_role_name'', sso_role_name info),
         (''region'', region info),
         (''output'', ''json'')]"
  let ?over = "map (\<lambda>(svc, host). (svc, endpoint_value host)) svc_endpoints"
  have "?section \<in> fst ` set config1"
    using c1 by (auto simp: add_section_def has_section_def split: if_splits)
  then obtain opts0 where o0: "map_of config1 ?section = Some opts0"
    by (metis domD dom_map_of_conv_image_fst)
  from set_options_lookup [OF set o0] obtain opts where
    opts: "map_of config' ?section = Some opts"
    and look: "\<And>k. map_of opts k =
      (case map_of (rev (?static @ ?over)) k of None \<Rightarrow> map_of opts0 k | Some v \<Rightarrow> Some v)"
    by blast
  have keys: "fst ` set ?over \<subseteq> {''s3'', ''ec2'', ''sts''}"
    using service_endpoints_keys [OF svc] by (auto simp: services_def)
  have static: "map_of (rev (?static @ ?over)) k = map_of (rev ?static) k"
    if "k \<notin> {''s3'', ''ec2'', ''sts''}" for k
    by (rule map_of_rev_append_other) (use keys that in auto)
  have "map_of opts ''sso_start_url'' = Some (sso_start_url info)"
    "map_of opts ''sso_region'' = Some (sso_region info)"
    "map_of opts ''sso_account_id'' = Some (sso_account_id info)"
    "map_of opts ''sso_role_name'' = Some (sso_role_name info)"
    "map_of opts ''region'' = Some (region info)"
    "map_of opts ''output'' = Some ''json''"
    unfolding look by (subst static; simp)+
  then show ?thesis using info opts by blast
qed

lemma map_of_filter_keep:
  "P y \<Longrightarrow> map_of (filter (\<lambda>(s, _). P s) c) y = map_of c y"
  by (induction c) auto

lemma provision_other:
  assumes "provision env profiles config = Inr config'"
  shows "filter (\<lambda>(s, _). s \<notin> (\<lambda>p. ''profile '' @ p) ` set profiles) config'
       = filter (\<lambda>(s, _). s \<notin> (\<lambda>p. ''profile '' @ p) ` set profiles) config"
  using assms
proof (induction profiles arbitrary: config)
  case Nil
  then show ?case by simp
next
  case (Cons p ps)
  let ?T = "(\<lambda>p. ''profile '' @ p) ` set ps"
  from Cons.prems obtain c1 where c1: "provision_profile env p config = Inr c1"
    and rest: "provision env ps c1 = Inr config'"
    by (auto split: sum.splits)
  have split: "filter (\<lambda>(s, _). s \<notin> (\<lambda>p. ''profile '' @ p) ` set (p # ps)) c
      = filter (\<lambda>(s, _). s \<noteq> ''profile '' @ p) (filter (\<lambda>(s, _). s \<notin> ?T) c)" for c :: config
    by (induction c) auto
  have swap: "filter (\<lambda>(s, _). s \<noteq> ''profile '' @ p) (filter (\<lambda>(s, _). s \<notin> ?T) c)
      = filter (\<lambda>(s, _). s \<notin> ?T) (filter (\<lambda>(s, _). s \<noteq> ''profile '' @ p) c)" for c :: config
    by (induction c) auto
  have "filter (\<lambda>(s, _). s \<notin> (\<lambda>p. ''profile '' @ p) ` set (p # ps)) config'
      = filter (\<lambda>(s, _). s \<noteq> ''profile '' @ p) (filter (\<lambda>(s, _). s \<notin> ?T) config')"
    by (rule split)
  also have "\<dots> = filter (\<lambda>(s, _). s \<noteq> ''profile '' @ p) (filter (\<lambda>(s, _). s \<notin> ?T) c1)"
    by (simp only: Cons.IH [OF rest])
  also have "\<dots> = filter (\<lambda>(s, _). s \<notin> ?T) (filter (\<lambda>(s, _). s \<noteq> ''profile '' @ p) c1)"
    by (rule swap)
  also have "\<dots> = filter (\<lambda>(s, _). s \<notin> ?T) (filter (\<lambda>(s, _). s \<noteq> ''profile '' @ p) config)"
    by (simp only: provision_profile_other [OF c1])
  also have "\<dots> = filter (\<lambda>(s, _). s \<noteq> ''profile '' @ p) (filter (\<lambda>(s, _). s \<notin> ?T) config)"
    by (rule swap [symmetric])
  also have "\<dots> = filter (\<lambda>(s, _). s \<notin> (\<lambda>p. ''profile '' @ p) ` set (p # ps)) config"
    by (rule split [symmetric])
  finally show ?case .
qed

lemma provision_sections:
  assumes "provision env profiles config = Inr config'" and "profile \<in> set profiles"
  shows "\<exists>info opts. sso_info profile = Some info \<and>
           map_of config' (''profile '' @ profile) = Some opts \<and>
           map_of opts ''sso_start_url'' = Some (sso_start_url info) \<and>
           map_of opts ''sso_region'' = Some (sso_region info) \<and>
           map_of opts ''sso_account_id'' = Some (sso_account_id info) \<and>
           map_of opts ''sso_role_name'' = Some (sso_role_name info) \<and>
           map_of opts ''region'' = Some (region info) \<and>
           map_of opts ''output'' = Some ''json''"
  using assms
proof (induction profiles arbitrary: config)
  case Nil
  then show ?case by simp
next
  case (Cons p ps)
  from Cons.prems obtain c1 where c1: "provision_profile env p config = Inr c1"
    and rest: "provision env ps c1 = Inr config'"
    by (auto split: sum.splits)
  show ?case
  proof (cases "profile \<in> set ps")
    case True
    then show ?thesis by (rule Cons.IH [OF rest])
  next
    case False
    with Cons.prems have p: "p = profile" by simp
    let ?P = "\<lambda>s. s \<notin> (\<lambda>p. ''profile '' @ p) ` set ps"
    have keep: "?P (''profile '' @ profile)"
    proof
      assume "''profile '' @ profile \<in> (\<lambda>p. ''profile '' @ p) ` set ps"
      then obtain x where "x \<in> set ps" and "''profile '' @ profile = ''profile '' @ x"
        by (rule imageE)
      then have "profile \<in> set ps" by (simp only: same_append_eq)
      with False show False ..
    qed
    have a: "map_of (filter (\<lambda>(s, _). ?P s) c) (''profile '' @ profile)
        = map_of c (''profile '' @ profile)" for c :: config
      by (rule map_of_filter_keep [of ?P "''profile '' @ profile" c, OF keep])
    have "map_of config' (''profile '' @ profile)
        = map_of (filter (\<lambda>(s, _). ?P s) config') (''profile '' @ profile)"
      by (rule a [symmetric])
    also have "\<dots> = map_of (filter (\<lambda>(s, _). ?P s) c1) (''profile '' @ profile)"
      by (simp only: provision_other [OF rest])
    also have "\<dots> = map_of c1 (''profile '' @ profile)"
      by (rule a)
    finally have same: "map_of config' (''profile '' @ profile) = map_of c1 (''profile '' @ profile)" .
    from c1 p have "provision_profile env profile config = Inr c1" by simp
    from provision_profile_section [OF this] show ?thesis unfolding same .
  qed
qed

text \<open>
  C9. When a run of the Profile Provisioner succeeds, the sections whose names
  are not \<open>profile \<close> followed by a name of the static profile list are, in the
  written configuration, exactly what they were before: the same sections in
  the same order with the same options and values. For every profile of the
  static list the section named for it exists, and its options for the
  federation URL, federation region, account id, role name, region and output
  format hold the profile's static values, whatever they held before.
\<close>

theorem provision_frame:
  assumes "generate_aws_profiles env config = Inr config'"
  shows "filter (\<lambda>(s, _). s \<notin> (\<lambda>p. ''profile '' @ p) ` set profile_names) config'
           = filter (\<lambda>(s, _). s \<notin> (\<lambda>p. ''profile '' @ p) ` set profile_names) config \<and>
         (\<forall>profile\<in>set profile_names.
            \<exists>info opts. sso_info profile = Some info \<and>
              map_of config' (''profile '' @ profile) = Some opts \<and>
              map_of opts ''sso_start_url'' = Some (sso_start_url info) \<and>
              map_of opts ''sso_region'' = Some (sso_region info) \<and>
              map_of opts ''sso_account_id'' = Some (sso_account_id info) \<and>
              map_of opts ''sso_role_name'' = Some (sso_role_name info) \<and>
              map_of opts ''region'' = Some (region info) \<and>
              map_of opts ''output'' = Some ''json'')"
proof -
  from assms have run: "provision env profile_names config = Inr config'"
    by (simp add: generate_aws_profiles_def)
  have frame: "filter (\<lambda>(s, _). s \<notin> (\<lambda>p. ''profile '' @ p) ` set profile_names) config'
        = filter (\<lambda>(s, _). s \<notin> (\<lambda>p. ''profile '' @ p) ` set profile_names) config"
    by (rule provision_other [OF run])
  have sections: "\<forall>profile\<in>set profile_names.
            \<exists>info opts. sso_info profile = Some info \<and>
              map_of config' (''profile '' @ profile) = Some opts \<and>
              map_of opts ''sso_start_url'' = Some (sso_start_url info) \<and>
              map_of opts ''sso_region'' = Some (sso_region info) \<and>
              map_of opts ''sso_account_id'' = Some (sso_account_id info) \<and>
              map_of opts ''sso_role_name'' = Some (sso_role_name info) \<and>
              map_of opts ''region'' = Some (region info) \<and>
              map_of opts ''output'' = Some ''json''"
  proof (rule ballI)
    fix profile assume "profile \<in> set profile_names"
    with run show "\<exists>info opts. sso_info profile = Some info \<and>
              map_of config' (''profile '' @ profile) = Some opts \<and>
              map_of opts ''sso_start_url'' = Some (sso_start_url info) \<and>
              map_of opts ''sso_region'' = Some (sso_region info) \<and>
              map_of opts ''sso_account_id'' = Some (sso_account_id info) \<and>
              map_of opts ''sso_role_name'' = Some (sso_role_name info) \<and>
              map_of opts ''region'' = Some (region info) \<and>
              map_of opts ''output'' = Some ''json''"
      by (rule provision_sections)
  qed
  from frame sections show ?thesis by (rule conjI)
qed

theorem provision_frame_witness:
  "filter (\<lambda>(s, _). s \<notin> (\<lambda>p. ''profile '' @ p) ` set profile_names) sample_result
     = filter (\<lambda>(s, _). s \<notin> (\<lambda>p. ''profile '' @ p) ` set profile_names) sample_config \<and>
   (\<exists>info opts. sso_info ''prod'' = Some info \<and>
      map_of sample_result (''profile '' @ ''prod'') = Some opts \<and>
      map_of opts ''sso_start_url'' = Some (sso_start_url info) \<and>
      map_of opts ''sso_region'' = Some (sso_region info) \<and>
      map_of opts ''sso_account_id'' = Some (sso_account_id info) \<and>
      map_of opts ''sso_role_name'' = Some (sso_role_name info) \<and>
      map_of opts ''region'' = Some (region info) \<and>
      map_of opts ''output'' = Some ''json'') \<and>
   (\<exists>info opts. sso_info ''dev'' = Some info \<and>
      map_of sample_result (''profile '' @ ''dev'') = Some opts \<and>
      map_of opts ''sso_start_url'' = Some (sso_start_url info) \<and>
      map_of opts ''sso_region'' = Some (sso_region info) \<and>
      map_of opts ''sso_account_id'' = Some (sso_account_id info) \<and>
      map_of opts ''sso_role_name'' = Some (sso_role_name info) \<and>
      map_of opts ''region'' = Some (region info) \<and>
      map_of opts ''output'' = Some ''json'')"
proof -
  have eps: "service_endpoints [first_endpoint, second_endpoint,
        \<lparr>VpcEndpointType = ''Gateway'', ServiceName = ''com.example.sts.us-east-1'',
         DnsEntries = []\<rparr>] = Inr [(''s3'', ''second.example.com'')]"
    by (simp add: service_endpoints_def services_def first_endpoint_def second_endpoint_def)
  have none: "service_endpoints [] = Inr []" by (simp add: service_endpoints_def)
  have run: "generate_aws_profiles sample_ec2 sample_config = Inr sample_result"
    by (simp add: generate_aws_profiles_def profile_names_def provision_profile_def sso_info_def
        sample_ec2_def sample_config_def sample_result_def eps none has_section_def
        add_section_def config_set_def)
  have prod: "''prod'' \<in> set profile_names" and dev: "''dev'' \<in> set profile_names"
    by (simp_all add: profile_names_def)
  from provision_frame [OF run] have frame: "filter (\<lambda>(s, _). s \<notin> (\<lambda>p. ''profile '' @ p) ` set profile_names) sample_result
     = filter (\<lambda>(s, _). s \<notin> (\<lambda>p. ''profile '' @ p) ` set profile_names) sample_config"
    and all: "\<forall>profile\<in>set profile_names.
      \<exists>info opts. sso_info profile = Some info \<and>
        map_of sample_result (''profile '' @ profile) = Some opts \<and>
        map_of opts ''sso_start_url'' = Some (sso_start_url info) \<and>
        map_of opts ''sso_region'' = Some (sso_region info) \<and>
        map_of opts ''sso_account_id'' = Some (sso_account_id info) \<and>
        map_of opts ''sso_role_name'' = Some (sso_role_name info) \<and>
        map_of opts ''region'' = Some (region info) \<and>
        map_of opts ''output'' = Some ''json''"
    by (rule conjunct1, rule conjunct2)
  show ?thesis
    by (rule conjI [OF frame conjI [OF bspec [OF all prod] bspec [OF all dev]]])
qed

lemma ok_env_simps:
  "list_objects_v2 ok_env h = Inr []"
  "head_object ok_env h k = Inr \<lparr>Restore = Some ongoing_false, ContentLength = 10\<rparr>"
  "restore_object ok_env h k d t = Inr ()"
  "copy_object ok_env h k = Inr ()"
  "create_multipart_upload ok_env h k = Inr ''upload-1''"
  "upload_part_copy ok_env h k n u s e = Inr (''etag-'' @ str_nat n)"
  "complete_multipart_upload ok_env h k u ps = Inr ()"
  "abort_multipart_upload ok_env h k u = Inr ()"
  "list_object_versions ok_env h k = Inr []"
  "delete_object ok_env h k v = Inr ()"
  by (simp_all add: ok_env_def)

lemma bucket_env_simps:
  "list_object_versions (bucket_env b) h p =
     Inr (filter (\<lambda>v. prefix p (vKey v)) (bucket_after b h))"
  "delete_object (bucket_env b) h k v = Inr ()"
  "copy_object (bucket_env b) h k = Inr ()"
  "create_multipart_upload (bucket_env b) h k = Inr ''upload-1''"
  by (simp_all add: bucket_env_def ok_env_simps)

lemma no_copy_env_simps:
  "list_object_versions no_copy_env h p =
     Inr (filter (\<lambda>v. prefix p (vKey v)) (bucket_after big_bucket h))"
  "delete_object no_copy_env h k v = Inr ()"
  "copy_object no_copy_env h k = Inl (Exn ''Service Unavailable'')"
  "create_multipart_upload no_copy_env h k = Inl (Exn ''Service Unavailable'')"
  by (simp_all add: no_copy_env_def bucket_env_simps)

lemma str_int_samples:
  "str_int 5368709121 = ''5368709121''"
  by (simp add: str_int_def)

text \<open>
  C1 at a failing input. The service refuses every copy. For an object of
  5 GiB the single-call copy fails and nothing more is done for the key. For
  an object one byte larger the multipart copy fails as well, yet the versions
  of the key are listed and its older archived version is deleted.
\<close>

theorem cleanup_after_failed_multipart_copy:
  "transition_to_standard no_copy_env [(''big'', 5368709120)] [] =
     [Log INFO ''Transitioning restored objects to STANDARD storage...'',
      CopyObject ''big'' ''big'' ''STANDARD'' ''COPY'',
      Log ERROR ''Failed to transition big to STANDARD: Service Unavailable''] \<and>
   transition_to_standard no_copy_env [(''big'', 5368709121)] [] =
     [Log INFO ''Transitioning restored objects to STANDARD storage...'',
      Log INFO ''Multipart copying big (5368709121 bytes)...'',
      CreateMultipartUpload ''big'' ''STANDARD'' ''COPY'',
      Log ERROR ''Multipart copy failed for big: Service Unavailable'',
      Log WARNING ''Could not abort upload for big'',
      ListObjectVersions ''big'',
      DeleteObject ''big'' ''v1'',
      Log INFO ''Deleted Glacier version: big (version v1)'']"
  by (simp add: transition_to_standard_def transition_key_def multipart_copy_def
      cleanup_glacier_versions_def no_copy_env_simps str_int_samples bucket_after_def
      big_bucket_def)

text \<open>
  C2 at a failing input. Cleaning up \<open>report\<close> lists the versions under the
  prefix \<open>report\<close>, finds the archived older version of \<open>report.bak\<close> and
  deletes the version of \<open>report\<close> that has the same id: the current and only
  version of \<open>report\<close> is gone, and the archived version is still there.
\<close>

theorem cleanup_deletes_current_version:
  "cleanup_glacier_versions (bucket_env shared_prefix_bucket) ''report'' [] =
     [ListObjectVersions ''report'',
      DeleteObject ''report'' ''null'',
      Log INFO ''Deleted Glacier version: report (version null)''] \<and>
   bucket_after shared_prefix_bucket
     [ListObjectVersions ''report'',
      DeleteObject ''report'' ''null'',
      Log INFO ''Deleted Glacier version: report (version null)''] =
     [\<lparr>vKey = ''report.bak'', VersionId = ''3HL4kqtJvjVBH40Nrjfkd'', IsLatest = True,
       vStorageClass = Some ''STANDARD''\<rparr>,
      \<lparr>vKey = ''report.bak'', VersionId = ''null'', IsLatest = False,
       vStorageClass = Some ''GLACIER''\<rparr>]"
  by (simp add: cleanup_glacier_versions_def bucket_env_simps bucket_after_def
      shared_prefix_bucket_def)





lemma poll_keys_cases:
  obtains (known) "key \<in> fst ` set r"
      "poll_keys env (key # ks) (h, r) = poll_keys env ks (h, r)"
  | (error) e where "key \<notin> fst ` set r" "head_object env h key = Inl e"
      "poll_keys env (key # ks) (h, r) = poll_keys env ks
         (h @ [HeadObject key, Log ERROR (''Error checking '' @ key @ '': '' @ str_exn e)], r)"
  | (pending) head where "key \<notin> fst ` set r" "head_object env h key = Inr head"
      "\<not> restore_has ongoing_false head"
      "poll_keys env (key # ks) (h, r) = poll_keys env ks (h @ [HeadObject key], r)"
  | (restored) head where "key \<notin> fst ` set r" "head_object env h key = Inr head"
      "restore_has ongoing_false head"
      "poll_keys env (key # ks) (h, r) = poll_keys env ks
         (h @ [HeadObject key,
               Log INFO (''Restored: '' @ key @ '' ('' @ str_int (ContentLength head)
                         @ '' bytes)'')],
          AList.update key (ContentLength head) r)"
proof (cases "key \<in> fst ` set r")
  case True
  then show ?thesis using known by simp
next
  case False
  show ?thesis
  proof (cases "head_object env h key")
    case (Inl e)
    then show ?thesis using False error by simp
  next
    case (Inr head)
    then show ?thesis using False pending [of head] restored [of head]
      by (cases "restore_has ongoing_false head") simp_all
  qed
qed




















text \<open>Everything one key adds to the history is about that key.\<close>

lemma initiate_restore_key_events:
  "\<exists>evs. initiate_restore_key env key h = h @ evs \<and>
         filter is_head_call evs = [HeadObject key] \<and>
         (\<forall>e\<in>set evs. \<forall>k. event_key e = Some k \<longrightarrow> k = key) \<and>
         (\<forall>e\<in>set evs. is_restore_call e \<longrightarrow> e = RestoreObject key 1 ''Standard'') \<and>
         length (filter is_restore_call evs) \<le> 1"
  by (auto simp: initiate_restore_key_def split: sum.splits)

lemma initiate_restore_events:
  "\<exists>evs. initiate_restore env keys h = h @ evs \<and>
         filter is_head_call evs = map HeadObject keys \<and>
         (\<forall>e\<in>set evs. \<forall>k. event_key e = Some k \<longrightarrow> k \<in> set keys) \<and>
         (\<forall>e\<in>set evs. is_restore_call e \<longrightarrow> (\<exists>k\<in>set keys. e = RestoreObject k 1 ''Standard'')) \<and>
         length (filter is_restore_call evs) \<le> length keys"
proof (induction keys arbitrary: h)
  case Nil
  then show ?case by simp
next
  case (Cons key keys)
  obtain evs where k: "initiate_restore_key env key h = h @ evs"
    "filter is_head_call evs = [HeadObject key]"
    "\<forall>e\<in>set evs. \<forall>k. event_key e = Some k \<longrightarrow> k = key"
    "\<forall>e\<in>set evs. is_restore_call e \<longrightarrow> e = RestoreObject key 1 ''Standard''"
    "length (filter is_restore_call evs) \<le> 1"
    using initiate_restore_key_events [of env key h] by blast
  obtain rest where r: "initiate_restore env keys (h @ evs) = (h @ evs) @ rest"
    "filter is_head_call rest = map HeadObject keys"
    "\<forall>e\<in>set rest. \<forall>k. event_key e = Some k \<longrightarrow> k \<in> set keys"
    "\<forall>e\<in>set rest. is_restore_call e \<longrightarrow> (\<exists>k\<in>set keys. e = RestoreObject k 1 ''Standard'')"
    "length (filter is_restore_call rest) \<le> length keys"
    using Cons.IH [of "h @ evs"] by blast
  have "initiate_restore env (key # keys) h = h @ (evs @ rest)" using k(1) r(1) by simp
  moreover have "filter is_head_call (evs @ rest) = map HeadObject (key # keys)"
    using k(2) r(2) by simp
  moreover have "\<forall>e\<in>set (evs @ rest). \<forall>k. event_key e = Some k \<longrightarrow> k \<in> set (key # keys)"
    using k(3) r(3) by auto
  moreover have "\<forall>e\<in>set (evs @ rest). is_restore_call e \<longrightarrow>
      (\<exists>k\<in>set (key # keys). e = RestoreObject k 1 ''Standard'')"
    using k(4) r(4) by auto
  moreover have "length (filter is_restore_call (evs @ rest)) \<le> length (key # keys)"
    using k(5) r(5) by simp
  ultimately show ?case by blast
qed

text \<open>
  C6. Restore initiation handles the candidate keys one after the other, and
  what it does at a key is decided by the metadata read when the key is
  reached. The history of the batch is what the keys before it add (calls on
  those keys only), then what this key adds, then what the keys after it add
  (calls on those keys only, each key inspected once and in order, whatever
  happened at this key). What this key adds is: for an ongoing restore, the
  metadata read and one log line, and no request; for a completed restore,
  the metadata read and one log line, and no request; otherwise the metadata
  read, exactly one restore request for 1 day at the \<open>Standard\<close> tier, and one
  log line; a failure of the read or of the request is logged as an error.
  Every restore request of the batch has these parameters, and there is at
  most one per key of the list.
\<close>

theorem initiate_restore_per_key:
  "\<exists>before evs rest.
     initiate_restore env pre h = h @ before \<and>
     initiate_restore env (pre @ key # post) h = h @ before @ evs @ rest \<and>
     initiate_restore_key env key (h @ before) = h @ before @ evs \<and>
     initiate_restore env post (h @ before @ evs) = h @ before @ evs @ rest \<and>
     filter is_head_call before = map HeadObject pre \<and>
     filter is_head_call rest = map HeadObject post \<and>
     (\<forall>e\<in>set before. \<forall>k. event_key e = Some k \<longrightarrow> k \<in> set pre) \<and>
     (\<forall>e\<in>set rest. \<forall>k. event_key e = Some k \<longrightarrow> k \<in> set post) \<and>
     (\<forall>e\<in>set (before @ evs @ rest). is_restore_call e \<longrightarrow>
        (\<exists>k\<in>set (pre @ key # post). e = RestoreObject k 1 ''Standard'')) \<and>
     length (filter is_restore_call before) \<le> length pre \<and>
     length (filter is_restore_call rest) \<le> length post \<and>
     (\<forall>e. head_object env (h @ before) key = Inl e \<longrightarrow>
        evs = [HeadObject key, Log ERROR (''Error restoring '' @ key @ '': '' @ str_exn e)]) \<and>
     (\<forall>head. head_object env (h @ before) key = Inr head \<longrightarrow>
        (restore_has ongoing_true head \<longrightarrow>
           evs = [HeadObject key, Log INFO (''Restore already in progress: '' @ key)]) \<and>
        (\<not> restore_has ongoing_true head \<and> restore_has ongoing_false head \<longrightarrow>
           evs = [HeadObject key, Log INFO (''Already restored: '' @ key)]) \<and>
        (\<not> restore_has ongoing_true head \<and> \<not> restore_has ongoing_false head \<longrightarrow>
           (\<forall>e. restore_object env (h @ before @ [HeadObject key]) key 1 ''Standard'' = Inl e \<longrightarrow>
              evs = [HeadObject key, RestoreObject key 1 ''Standard'',
                     Log ERROR (''Error restoring '' @ key @ '': '' @ str_exn e)]) \<and>
           (\<forall>u. restore_object env (h @ before @ [HeadObject key]) key 1 ''Standard'' = Inr u \<longrightarrow>
              evs = [HeadObject key, RestoreObject key 1 ''Standard'',
                     Log INFO (''Restore initiated: '' @ key)])))"
proof -
  obtain before where b: "initiate_restore env pre h = h @ before"
    "filter is_head_call before = map HeadObject pre"
    "\<forall>e\<in>set before. \<forall>k. event_key e = Some k \<longrightarrow> k \<in> set pre"
    "\<forall>e\<in>set before. is_restore_call e \<longrightarrow> (\<exists>k\<in>set pre. e = RestoreObject k 1 ''Standard'')"
    "length (filter is_restore_call before) \<le> length pre"
    using initiate_restore_events [of env pre h] by blast
  let ?h1 = "h @ before"
  obtain evs where evs: "initiate_restore_key env key ?h1 = ?h1 @ evs"
    "\<forall>e\<in>set evs. is_restore_call e \<longrightarrow> e = RestoreObject key 1 ''Standard''"
    using initiate_restore_key_events [of env key ?h1] by blast
  obtain rest where rest: "initiate_restore env post (?h1 @ evs) = (?h1 @ evs) @ rest"
    "filter is_head_call rest = map HeadObject post"
    "\<forall>e\<in>set rest. \<forall>k. event_key e = Some k \<longrightarrow> k \<in> set post"
    "\<forall>e\<in>set rest. is_restore_call e \<longrightarrow> (\<exists>k\<in>set post. e = RestoreObject k 1 ''Standard'')"
    "length (filter is_restore_call rest) \<le> length post"
    using initiate_restore_events [of env post "?h1 @ evs"] by blast
  have run: "initiate_restore env (pre @ key # post) h = h @ before @ evs @ rest"
    using b(1) evs(1) rest(1) by (simp add: initiate_restore_append)
  have key_run: "initiate_restore_key env key (h @ before) = h @ before @ evs"
    using evs(1) by simp
  have post_run: "initiate_restore env post (h @ before @ evs) = h @ before @ evs @ rest"
    using rest(1) by simp
  have params: "\<forall>e\<in>set (before @ evs @ rest). is_restore_call e \<longrightarrow>
        (\<exists>k\<in>set (pre @ key # post). e = RestoreObject k 1 ''Standard'')"
    using b(4) evs(2) rest(4) by auto
  have err: "\<forall>e. head_object env ?h1 key = Inl e \<longrightarrow>
        evs = [HeadObject key, Log ERROR (''Error restoring '' @ key @ '': '' @ str_exn e)]"
    using evs(1) by (auto simp: initiate_restore_key_def)
  have ok: "\<forall>head. head_object env ?h1 key = Inr head \<longrightarrow>
        (restore_has ongoing_true head \<longrightarrow>
           evs = [HeadObject key, Log INFO (''Restore already in progress: '' @ key)]) \<and>
        (\<not> restore_has ongoing_true head \<and> restore_has ongoing_false head \<longrightarrow>
           evs = [HeadObject key, Log INFO (''Already restored: '' @ key)]) \<and>
        (\<not> restore_has ongoing_true head \<and> \<not> restore_has ongoing_false head \<longrightarrow>
           (\<forall>e. restore_object env (h @ before @ [HeadObject key]) key 1 ''Standard'' = Inl e \<longrightarrow>
              evs = [HeadObject key, RestoreObject key 1 ''Standard'',
                     Log ERROR (''Error restoring '' @ key @ '': '' @ str_exn e)]) \<and>
           (\<forall>u. restore_object env (h @ before @ [HeadObject key]) key 1 ''Standard'' = Inr u \<longrightarrow>
              evs = [HeadObject key, RestoreObject key 1 ''Standard'',
                     Log INFO (''Restore initiated: '' @ key)]))"
    using evs(1) by (auto simp: initiate_restore_key_def)
  show ?thesis
    apply (rule exI [of _ before], rule exI [of _ evs], rule exI [of _ rest])
    apply (intro conjI)
    apply (rule b(1))
    apply (rule run)
    apply (rule key_run)
    apply (rule post_run)
    apply (rule b(2))
    apply (rule rest(2))
    apply (rule b(3))
    apply (rule rest(3))
    apply (rule params)
    apply (rule b(5))
    apply (rule rest(5))
    apply (rule err)
    apply (rule ok)
    done
qed

theorem initiate_restore_per_key_witness:
  "(\<exists>rest.
      initiate_restore mixed_env [''a'', ''z''] [] =
        [HeadObject ''a'', Log INFO ''Restore already in progress: a''] @ rest \<and>
      initiate_restore_key mixed_env ''a'' [] =
        [HeadObject ''a'', Log INFO ''Restore already in progress: a''] \<and>
      initiate_restore mixed_env [''z'']
        [HeadObject ''a'', Log INFO ''Restore already in progress: a''] =
        [HeadObject ''a'', Log INFO ''Restore already in progress: a''] @ rest \<and>
      filter is_head_call rest = [HeadObject ''z''] \<and>
      (\<forall>e\<in>set rest. \<forall>k. event_key e = Some k \<longrightarrow> k = ''z'') \<and>
      (\<forall>e\<in>set rest. is_restore_call e \<longrightarrow>
         e = RestoreObject ''a'' 1 ''Standard'' \<or> e = RestoreObject ''z'' 1 ''Standard'') \<and>
      length (filter is_restore_call rest) \<le> 1) \<and>
   (\<exists>rest.
      initiate_restore mixed_env [''b'', ''z''] [] =
        [HeadObject ''b'', Log INFO ''Already restored: b''] @ rest \<and>
      initiate_restore_key mixed_env ''b'' [] =
        [HeadObject ''b'', Log INFO ''Already restored: b''] \<and>
      initiate_restore mixed_env [''z'']
        [HeadObject ''b'', Log INFO ''Already restored: b''] =
        [HeadObject ''b'', Log INFO ''Already restored: b''] @ rest \<and>
      filter is_head_call rest = [HeadObject ''z''] \<and>
      (\<forall>e\<in>set rest. \<forall>k. event_key e = Some k \<longrightarrow> k = ''z'') \<and>
      (\<forall>e\<in>set rest. is_restore_call e \<longrightarrow>
         e = RestoreObject ''b'' 1 ''Standard'' \<or> e = RestoreObject ''z'' 1 ''Standard'') \<and>
      length (filter is_restore_call rest) \<le> 1) \<and>
   (\<exists>rest.
      initiate_restore mixed_env [''c'', ''z''] [] =
        [HeadObject ''c'', Log ERROR ''Error restoring c: Not Found''] @ rest \<and>
      initiate_restore_key mixed_env ''c'' [] =
        [HeadObject ''c'', Log ERROR ''Error restoring c: Not Found''] \<and>
      initiate_restore mixed_env [''z'']
        [HeadObject ''c'', Log ERROR ''Error restoring c: Not Found''] =
        [HeadObject ''c'', Log ERROR ''Error restoring c: Not Found''] @ rest \<and>
      filter is_head_call rest = [HeadObject ''z''] \<and>
      (\<forall>e\<in>set rest. \<forall>k. event_key e = Some k \<longrightarrow> k = ''z'') \<and>
      (\<forall>e\<in>set rest. is_restore_call e \<longrightarrow>
         e = RestoreObject ''c'' 1 ''Standard'' \<or> e = RestoreObject ''z'' 1 ''Standard'') \<and>
      length (filter is_restore_call rest) \<le> 1) \<and>
   (\<exists>rest.
      initiate_restore mixed_env [''z'', ''a''] [] =
        [HeadObject ''z'', RestoreObject ''z'' 1 ''Standard'', Log INFO ''Restore initiated: z''] @ rest \<and>
      initiate_restore_key mixed_env ''z'' [] =
        [HeadObject ''z'', RestoreObject ''z'' 1 ''Standard'', Log INFO ''Restore initiated: z''] \<and>
      initiate_restore mixed_env [''a'']
        [HeadObject ''z'', RestoreObject ''z'' 1 ''Standard'', Log INFO ''Restore initiated: z''] =
        [HeadObject ''z'', RestoreObject ''z'' 1 ''Standard'', Log INFO ''Restore initiated: z''] @ rest \<and>
      filter is_head_call rest = [HeadObject ''a''] \<and>
      (\<forall>e\<in>set rest. \<forall>k. event_key e = Some k \<longrightarrow> k = ''a'') \<and>
      (\<forall>e\<in>set rest. is_restore_call e \<longrightarrow>
         e = RestoreObject ''z'' 1 ''Standard'' \<or> e = RestoreObject ''a'' 1 ''Standard'') \<and>
      length (filter is_restore_call rest) \<le> 1) \<and>
   (\<exists>rest.
      initiate_restore mixed_env [''e'', ''a''] [] =
        [HeadObject ''e'', RestoreObject ''e'' 1 ''Standard'',
           Log ERROR ''Error restoring e: Access Denied''] @ rest \<and>
      initiate_restore_key mixed_env ''e'' [] =
        [HeadObject ''e'', RestoreObject ''e'' 1 ''Standard'',
           Log ERROR ''Error restoring e: Access Denied''] \<and>
      initiate_restore mixed_env [''a'']
        [HeadObject ''e'', RestoreObject ''e'' 1 ''Standard'',
           Log ERROR ''Error restoring e: Access Denied''] =
        [HeadObject ''e'', RestoreObject ''e'' 1 ''Standard'',
           Log ERROR ''Error restoring e: Access Denied''] @ rest \<and>
      filter is_head_call rest = [HeadObject ''a''] \<and>
      (\<forall>e\<in>set rest. \<forall>k. event_key e = Some k \<longrightarrow> k = ''a'') \<and>
      (\<forall>e\<in>set rest. is_restore_call e \<longrightarrow>
         e = RestoreObject ''e'' 1 ''Standard'' \<or> e = RestoreObject ''a'' 1 ''Standard'') \<and>
      length (filter is_restore_call rest) \<le> 1)"
  using initiate_restore_per_key [of mixed_env "[]" "[]" "''a''" "[''z'']"]
    initiate_restore_per_key [of mixed_env "[]" "[]" "''b''" "[''z'']"]
    initiate_restore_per_key [of mixed_env "[]" "[]" "''c''" "[''z'']"]
    initiate_restore_per_key [of mixed_env "[]" "[]" "''z''" "[''a'']"]
    initiate_restore_per_key [of mixed_env "[]" "[]" "''e''" "[''a'']"]
  by (simp add: mixed_env_simps restore_has_samples)

lemma scan_contents_eq:
  "scan_contents objs acc =
     acc @ map Key (filter (\<lambda>obj. StorageClass obj = Some ''GLACIER'') objs)"
  by (induction objs arbitrary: acc) auto

lemma scan_pages_eq:
  "scan_pages pages acc =
     acc @ map Key (filter (\<lambda>obj. StorageClass obj = Some ''GLACIER'') (listed_objects pages))"
  by (induction pages arbitrary: acc) (auto simp: listed_objects_def scan_contents_eq)

lemma get_glacier_objects_result:
  assumes "get_glacier_objects env h = (h', Inr keys)"
  shows "\<exists>pages. list_objects_v2 env (h @ [Log INFO ''Scanning for GLACIER objects...'']) = Inr pages \<and>
           keys = map Key (filter (\<lambda>obj. StorageClass obj = Some ''GLACIER'') (listed_objects pages)) \<and>
           h' = h @ [Log INFO ''Scanning for GLACIER objects...'', ListObjectsV2,
                     Log INFO (''Found '' @ str_int (int (length keys)) @ '' GLACIER objects.'')]"
  using assms
  by (auto simp: get_glacier_objects_def Let_def scan_pages_eq split: sum.splits)

lemma get_glacier_objects_events:
  "\<exists>evs. fst (get_glacier_objects env h) = h @ evs \<and> (\<forall>e\<in>set evs. event_key e = None)"
  by (auto simp: get_glacier_objects_def Let_def split: sum.splits)

lemma poll_keys_events:
  assumes "set ks \<subseteq> S"
  shows "\<exists>evs. fst (poll_keys env ks (h, r)) = h @ evs \<and>
           (\<forall>e\<in>set evs. (is_head_call e \<or> event_key e = None) \<and>
                         (\<forall>k. event_key e = Some k \<longrightarrow> k \<in> S))"
  using assms
proof (induction ks arbitrary: h r)
  case Nil
  then show ?case by simp
next
  case (Cons key ks)
  from Cons.prems have sub: "set ks \<subseteq> S" and key: "key \<in> S" by auto
  let ?Q = "\<lambda>e. (is_head_call e \<or> event_key e = None) \<and> (\<forall>k. event_key e = Some k \<longrightarrow> k \<in> S)"
  have continue: "\<exists>evs. fst (poll_keys env (key # ks) (h, r)) = h @ evs \<and> (\<forall>e\<in>set evs. ?Q e)"
    if step: "poll_keys env (key # ks) (h, r) = poll_keys env ks (h @ new, r1)"
      and new: "\<forall>e\<in>set new. ?Q e" for new r1
  proof -
    from Cons.IH [OF sub, of "h @ new" r1] obtain evs where
      "fst (poll_keys env ks (h @ new, r1)) = (h @ new) @ evs" "\<forall>e\<in>set evs. ?Q e" by blast
    then have "fst (poll_keys env (key # ks) (h, r)) = h @ (new @ evs)"
      "\<forall>e\<in>set (new @ evs). ?Q e" using step new by auto
    then show ?thesis by blast
  qed
  show ?case
  proof (cases rule: poll_keys_cases [of key r env ks h])
    case known
    have "poll_keys env (key # ks) (h, r) = poll_keys env ks (h @ [], r)"
      using known(2) by simp
    then show ?thesis by (rule continue) simp
  next
    case (error e)
    show ?thesis by (rule continue [OF error(3)]) (simp add: key)
  next
    case (pending head)
    show ?thesis by (rule continue [OF pending(4)]) (simp add: key)
  next
    case (restored head)
    show ?thesis by (rule continue [OF restored(4)]) (simp add: key)
  qed
qed

lemma wait_loop_events:
  assumes "wait_loop env keys st = Some y"
  shows "\<exists>evs. fst y = fst st @ evs \<and>
           (\<forall>e\<in>set evs. (is_head_call e \<or> event_key e = None) \<and>
                         (\<forall>k. event_key e = Some k \<longrightarrow> k \<in> set keys))"
proof (rule wait_loop.raw_induct [where P = "\<lambda>env keys st y. \<exists>evs. fst y = fst st @ evs \<and>
           (\<forall>e\<in>set evs. (is_head_call e \<or> event_key e = None) \<and>
                         (\<forall>k. event_key e = Some k \<longrightarrow> k \<in> set keys))",
      OF _ assms], goal_cases)
  case (1 wl env keys st y)
  let ?p = "poll_keys env keys st"
  let ?Q = "\<lambda>e. (is_head_call e \<or> event_key e = None) \<and>
                (\<forall>k. event_key e = Some k \<longrightarrow> k \<in> set keys)"
  obtain h r where st: "st = (h, r)" by (cases st)
  obtain sweep where sweep: "fst ?p = fst st @ sweep" "\<forall>e\<in>set sweep. ?Q e"
    using poll_keys_events [of keys "set keys" env h r] st by auto
  have step: "\<exists>evs. fst y = fst st @ evs \<and> (\<forall>e\<in>set evs. ?Q e)"
    if wl: "wl env keys (fst ?p @ new, snd ?p) = Some y" and new: "\<forall>e\<in>set new. ?Q e" for new
  proof -
    from 1(1) [OF wl] obtain evs where "fst y = (fst ?p @ new) @ evs" "\<forall>e\<in>set evs. ?Q e"
      by auto
    then have "fst y = fst st @ (sweep @ new @ evs)" "\<forall>e\<in>set (sweep @ new @ evs). ?Q e"
      using sweep new by auto
    then show ?thesis by blast
  qed
  show ?case
  proof (cases "length (snd st) < length keys")
    case False
    with 1(2) have "y = st" by simp
    then show ?thesis by simp
  next
    case True
    show ?thesis
    proof (cases "length (snd ?p) < length keys")
      case again: True
      from 1(2) True again
      have "wl env keys (fst ?p @ [progress_line (snd ?p) keys, Sleep 60], snd ?p) = Some y"
        by simp
      then show ?thesis by (rule step) (simp add: progress_line_def)
    next
      case finished: False
      from 1(2) True finished
      have "wl env keys (fst ?p @ [progress_line (snd ?p) keys], snd ?p) = Some y"
        by simp
      then show ?thesis by (rule step) (simp add: progress_line_def)
    qed
  qed
qed

lemma transition_items_events:
  assumes "fst ` set items \<subseteq> S"
  shows "\<exists>evs. transition_items env items h = h @ evs \<and>
           (\<forall>e\<in>set evs. \<forall>k. event_key e = Some k \<longrightarrow> k \<in> S)"
  using assms
proof (induction items arbitrary: h)
  case Nil
  then show ?case by simp
next
  case (Cons item items)
  obtain k sz where item: "item = (k, sz)" by (cases item)
  with Cons.prems have k: "k \<in> S" and sub: "fst ` set items \<subseteq> S" by auto
  obtain evs where t: "transition_key env k sz h = h @ evs"
    "\<forall>e\<in>set evs. \<forall>k. event_key e = Some k \<longrightarrow> k \<in> S"
    using transition_key_events [of "\<lambda>e. \<forall>k. event_key e = Some k \<longrightarrow> k \<in> S" k env sz h] k
    by auto
  obtain evs' where "transition_items env items (h @ evs) = (h @ evs) @ evs'"
    "\<forall>e\<in>set evs'. \<forall>k. event_key e = Some k \<longrightarrow> k \<in> S"
    using Cons.IH [OF sub, of "h @ evs"] by blast
  then have "transition_items env (item # items) h = h @ (evs @ evs')"
    "\<forall>e\<in>set (evs @ evs'). \<forall>k. event_key e = Some k \<longrightarrow> k \<in> S"
    using item t by auto
  then show ?case by blast
qed

end
